theory Spec2Isabelle
  imports Main
begin

section \<open>The token generator (\<open>timestampIdGenerator\<close>)\<close>

text \<open>
  JavaScript renders a non-negative integer number in a template literal as its decimal
  digits without leading zeros, and a negative one with a leading minus sign.
  \<open>Date.now()\<close> is an integer number of milliseconds; the counter \<open>inc\<close> is a
  non-negative integer (its values stay far below \<open>2^53\<close>, where JavaScript numbers
  stop being exact, because it restarts at every new millisecond).
\<close>

definition digit_char :: "nat \<Rightarrow> char" where
  "digit_char d = ''0123456789'' ! d"

fun digits :: "nat \<Rightarrow> string" where
  "digits n = (if n < 10 then [digit_char n] else digits (n div 10) @ [digit_char (n mod 10)])"

declare digits.simps [simp del]

definition numToString :: "int \<Rightarrow> string" where
  "numToString i = (if i < 0 then CHR ''-'' # digits (nat (- i)) else digits (nat i))"

text \<open>
  The closure variables of \<open>timestampIdGenerator\<close>: \<open>inc\<close>, \<open>now\<close> and \<open>lastNow\<close>
  (\<open>None\<close> is JavaScript's \<open>undefined\<close>, the value of \<open>now\<close> before the first call).
\<close>

record idgen =
  inc :: nat
  now :: "int option"
  lastNow :: "int option"

definition timestampIdGenerator :: idgen where
  "timestampIdGenerator = \<lparr>inc = 0, now = None, lastNow = None\<rparr>"

text \<open>\<open>gen_next t g\<close> is one call of \<open>next()\<close> at which \<open>Date.now()\<close> reads \<open>t\<close>.\<close>

definition gen_next :: "int \<Rightarrow> idgen \<Rightarrow> string \<times> idgen" where
  "gen_next t g =
     (let g1 = g\<lparr>lastNow := now g\<rparr>;
          g2 = g1\<lparr>now := Some t\<rparr>;
          g3 = (if lastNow g2 = now g2 then g2\<lparr>inc := inc g2 + 1\<rparr> else g2\<lparr>inc := 0\<rparr>)
      in (digits (inc g3) @ numToString t, g3))"

section \<open>Values, envelopes and the promise runtime\<close>

text \<open>
  JavaScript values that cross the channel: payloads, results, reasons of rejections.
  \<open>JError m\<close> is an \<open>Error\<close> object with message \<open>m\<close>.
\<close>

datatype jsval =
    JUndefined
  | JNull
  | JBool bool
  | JNum int
  | JStr string
  | JError string
  | JArr "jsval list"
  | JObj "(string \<times> jsval) list"

text \<open>An envelope is an object literal: its keys with their values, in source order.\<close>

type_synonym payload = "(string \<times> jsval) list"

definition DEFAULT_TIMEOUT :: int where
  "DEFAULT_TIMEOUT = 3000"

definition HANDSHAKE_ACTION :: string where
  "HANDSHAKE_ACTION = ''__WK_HANDSHAKE__''"

definition CALLBACK_ACTION :: string where
  "CALLBACK_ACTION = ''__WK_CALLBACK__''"

definition MESSAGE_TYPE :: string where
  "MESSAGE_TYPE = ''application/x-wkpostmessenger-v1+json''"

definition MESSAGE_TIMEOUT_REASON :: jsval where
  "MESSAGE_TIMEOUT_REASON = JStr ''[WKPostMessenger] message acknowledgment timeout''"

definition HANDSHAKE_TIMEOUT_REASON :: jsval where
  "HANDSHAKE_TIMEOUT_REASON = JStr ''[WKPostMessenger] handshake acknowledgment timeout''"

definition HANDSHAKE_COMPLETED_ERROR :: jsval where
  "HANDSHAKE_COMPLETED_ERROR = JError ''[WKPostMessenger] sendHandshake was already completed!!''"

text \<open>
  A promise is pending, fulfilled with a value or rejected with a reason. Promises, timers
  and the closures of the source are named by numbers: a promise by the order of its
  creation, a timer by the handle \<open>setTimeout\<close> returns.
\<close>

datatype pstate = Pending | Fulfilled jsval | Rejected jsval

text \<open>
  The functions the source passes to \<open>then\<close> and \<open>catch\<close>:
  \<^item> \<open>SetConnected\<close> is \<open>() => { this._connected = true; }\<close>;
  \<^item> \<open>HandshakeFailed\<close> is \<open>() => { this._connecting = false; return Promise.reject(...); }\<close>;
  \<^item> \<open>IssueMessage action data timeout\<close> is \<open>() => this._sendMessage(action, data, timeout)\<close>;
  \<^item> \<open>ReplyWith id\<close> is \<open>promiseResult => this._sendMessageCallback(id, promiseResult)\<close>.
\<close>

datatype callback =
    SetConnected
  | HandshakeFailed
  | IssueMessage string jsval int
  | ReplyWith string

text \<open>
  \<open>Then onFulfilled onRejected q\<close> is a \<open>then\<close> registration with derived promise \<open>q\<close>
  (a missing function passes the outcome through); \<open>Forward q\<close> is the registration by
  which \<open>q\<close> adopts the state of a promise it was resolved with.
\<close>

datatype reaction = Then "callback option" "callback option" nat | Forward nat

datatype job = ReactionJob reaction pstate | ThenableJob nat nat

text \<open>
  \<open>CallbackReceived p rejectTimeout\<close> is the closure \<open>callbackReceived\<close> of the
  \<open>_sendMessage\<close> call that created promise \<open>p\<close>; \<open>rejectTimeout\<close> is the timer handle
  it clears (\<open>None\<close> is \<open>undefined\<close>: no timer was set).
  \<open>RejectTimeout id p h\<close> is the timer function of that call, \<open>h\<close> its own handle.
\<close>

datatype listener = CallbackReceived nat "nat option"

datatype timer_fn = RejectTimeout string nat nat

text \<open>What a call of the user's \<open>handleMessage\<close> does: throw, return a value that is not
  a thenable, or return a promise (in the state it has when it is returned).\<close>

datatype hresult = HThrows jsval | HReturns jsval | HPromise pstate

text \<open>
  The id generator: the default one, or a replacement passed as option \<open>idGenerator\<close>,
  given by the sequence of values its \<open>next()\<close> yields and the number of calls so far.
\<close>

datatype idGenerator = Timestamp idgen | Custom "nat \<Rightarrow> string" nat

datatype entry = HandlerEntry | CallbackEntry

section \<open>The channel\<close>

text \<open>
  The fields of a \<open>WKPostMessenger\<close> instance, the listeners of its \<open>eemit\<close> emitter,
  and the part of the JavaScript runtime it acts on: the promises it creates with their
  registrations, the microtask queue, the timers, the clock, the globals it installs and
  the log of the envelopes passed to \<open>parent.postMessage\<close>. \<open>parent = None\<close> is a
  \<open>parent\<close> that is \<open>undefined\<close>.

  The emitter is the library \<open>eemit\<close>, which is not part of the repository. It is
  modelled by the contract its method names state: \<open>on\<close> adds a listener for an event,
  \<open>off\<close> removes it, \<open>trigger\<close> calls the listeners of the event in the order they
  were added and leaves them registered.
\<close>

record channel =
  connecting :: bool
  connected :: bool
  whenReady :: "nat option"
  hm :: string
  cb :: string
  handshakeTimeout :: int
  messageTimeout :: int
  idGen :: idGenerator
  handleMessage :: "(string \<Rightarrow> jsval \<Rightarrow> hresult) option"
  parent :: "nat option"
  emitter :: "string \<Rightarrow> listener list"
  promises :: "nat \<Rightarrow> pstate"
  reactions :: "nat \<Rightarrow> reaction list"
  npromises :: nat
  userPromises :: "nat list"
  timers :: "(nat \<times> int \<times> timer_fn) list"
  ntimers :: nat
  microtasks :: "job list"
  clock :: int
  globals :: "(string \<times> entry) list"
  sent :: "payload list"

subsection \<open>Promises\<close>

definition newPromise :: "pstate \<Rightarrow> channel \<Rightarrow> nat \<times> channel" where
  "newPromise st s =
     (npromises s,
      s\<lparr>promises := (promises s)(npromises s := st),
        reactions := (reactions s)(npromises s := []),
        npromises := Suc (npromises s)\<rparr>)"

definition enqueue :: "job \<Rightarrow> channel \<Rightarrow> channel" where
  "enqueue j s = s\<lparr>microtasks := microtasks s @ [j]\<rparr>"

text \<open>Settling a promise that is already settled does nothing; settling a pending one
  queues a job for each of its registrations.\<close>

definition settle :: "nat \<Rightarrow> pstate \<Rightarrow> channel \<Rightarrow> channel" where
  "settle p outcome s =
     (if promises s p = Pending
      then s\<lparr>promises := (promises s)(p := outcome),
             reactions := (reactions s)(p := []),
             microtasks := microtasks s @ map (\<lambda>r. ReactionJob r outcome) (reactions s p)\<rparr>
      else s)"

definition subscribe :: "nat \<Rightarrow> reaction \<Rightarrow> channel \<Rightarrow> channel" where
  "subscribe p r s =
     (case promises s p of
        Pending \<Rightarrow> s\<lparr>reactions := (reactions s)(p := reactions s p @ [r])\<rparr>
      | Fulfilled v \<Rightarrow> enqueue (ReactionJob r (Fulfilled v)) s
      | Rejected e \<Rightarrow> enqueue (ReactionJob r (Rejected e)) s)"

definition promise_then ::
  "nat \<Rightarrow> callback option \<Rightarrow> callback option \<Rightarrow> channel \<Rightarrow> nat \<times> channel" where
  "promise_then p onFulfilled onRejected s =
     (let (q, s1) = newPromise Pending s
      in (q, subscribe p (Then onFulfilled onRejected q) s1))"

subsection \<open>Timers and the emitter\<close>

definition setTimeout :: "timer_fn \<Rightarrow> int \<Rightarrow> channel \<Rightarrow> channel" where
  "setTimeout f delay s =
     s\<lparr>timers := timers s @ [(ntimers s, clock s + delay, f)], ntimers := Suc (ntimers s)\<rparr>"

definition clearTimeout :: "nat option \<Rightarrow> channel \<Rightarrow> channel" where
  "clearTimeout ho s =
     (case ho of
        None \<Rightarrow> s
      | Some h \<Rightarrow> s\<lparr>timers := filter (\<lambda>t. fst t \<noteq> h) (timers s)\<rparr>)"

definition emitter_on :: "string \<Rightarrow> listener \<Rightarrow> channel \<Rightarrow> channel" where
  "emitter_on ev l s = s\<lparr>emitter := (emitter s)(ev := emitter s ev @ [l])\<rparr>"

definition emitter_off :: "string \<Rightarrow> listener \<Rightarrow> channel \<Rightarrow> channel" where
  "emitter_off ev l s = s\<lparr>emitter := (emitter s)(ev := removeAll l (emitter s ev))\<rparr>"

text \<open>\<open>callbackReceived\<close>: \<open>clearTimeout(rejectTimeout); resolve(result);\<close>\<close>

fun callbackReceived :: "listener \<Rightarrow> jsval \<Rightarrow> channel \<Rightarrow> channel" where
  "callbackReceived (CallbackReceived p rejectTimeout) result s =
     settle p (Fulfilled result) (clearTimeout rejectTimeout s)"

definition emitter_trigger :: "string \<Rightarrow> jsval \<Rightarrow> channel \<Rightarrow> channel" where
  "emitter_trigger ev arg s = fold (\<lambda>l. callbackReceived l arg) (emitter s ev) s"

subsection \<open>Sending\<close>

definition idGen_next :: "int \<Rightarrow> idGenerator \<Rightarrow> string \<times> idGenerator" where
  "idGen_next t g =
     (case g of
        Timestamp st \<Rightarrow> (let (v, st') = gen_next t st in (v, Timestamp st'))
      | Custom f n \<Rightarrow> (f n, Custom f (Suc n)))"

text \<open>\<open>this.parent.postMessage(payload)\<close>: a \<open>TypeError\<close> when \<open>parent\<close> is
  \<open>undefined\<close>; otherwise the envelope goes to the transport, which returns nothing.\<close>

definition postMessage :: "payload \<Rightarrow> channel \<Rightarrow> jsval + channel" where
  "postMessage payload s =
     (case parent s of
        None \<Rightarrow> Inl (JError ''TypeError'')
      | Some t \<Rightarrow> Inr (s\<lparr>sent := sent s @ [payload]\<rparr>))"

definition request_payload :: "string \<Rightarrow> string \<Rightarrow> string \<Rightarrow> jsval \<Rightarrow> payload" where
  "request_payload callbackName ident action data =
     [(''type'', JStr MESSAGE_TYPE),
      (''callback'', JStr callbackName),
      (''id'', JStr ident),
      (''action'', JStr action),
      (''data'', data)]"

text \<open>
  \<open>_sendMessage(action, data, timeout)\<close>. The executor of the new promise runs at once;
  an exception in it (the \<open>TypeError\<close> of \<open>postMessage\<close>) rejects the promise.
\<close>

definition priv_sendMessage :: "string \<Rightarrow> jsval \<Rightarrow> int \<Rightarrow> channel \<Rightarrow> nat \<times> channel" where
  "priv_sendMessage action data timeout s =
     (let (p, s1) = newPromise Pending s;
          (ident, g) = idGen_next (clock s1) (idGen s1);
          s2 = s1\<lparr>idGen := g\<rparr>;
          payload = request_payload (cb s2) ident action data;
          h = ntimers s2;
          (rejectTimeout, s3) =
            (if timeout > 0
             then (Some h, setTimeout (RejectTimeout ident p h) timeout s2)
             else (None, s2));
          s4 = emitter_on ident (CallbackReceived p rejectTimeout) s3
      in case postMessage payload s4 of
           Inl e \<Rightarrow> (p, settle p (Rejected e) s4)
         | Inr s5 \<Rightarrow> (p, s5))"

definition reply_payload :: "string \<Rightarrow> jsval \<Rightarrow> payload" where
  "reply_payload ident data =
     [(''type'', JStr MESSAGE_TYPE),
      (''callback'', JStr []),
      (''action'', JStr CALLBACK_ACTION),
      (''id'', JStr ident),
      (''data'', data)]"

definition priv_sendMessageCallback :: "string \<Rightarrow> jsval \<Rightarrow> channel \<Rightarrow> jsval + channel" where
  "priv_sendMessageCallback ident data s = postMessage (reply_payload ident data) s"

subsection \<open>Microtasks\<close>

datatype ret = RetValue jsval | RetPromise nat | RetThrow jsval

fun call_callback :: "callback \<Rightarrow> jsval \<Rightarrow> channel \<Rightarrow> ret \<times> channel" where
  "call_callback SetConnected v s = (RetValue JUndefined, s\<lparr>connected := True\<rparr>)"
| "call_callback HandshakeFailed v s =
     (let s1 = s\<lparr>connecting := False\<rparr>;
          (r, s2) = newPromise (Rejected HANDSHAKE_TIMEOUT_REASON) s1
      in (RetPromise r, s2))"
| "call_callback (IssueMessage action data timeout) v s =
     (let (p, s1) = priv_sendMessage action data timeout s in (RetPromise p, s1))"
| "call_callback (ReplyWith ident) v s =
     (case priv_sendMessageCallback ident v s of
        Inl e \<Rightarrow> (RetThrow e, s)
      | Inr s1 \<Rightarrow> (RetValue JUndefined, s1))"

text \<open>The derived promise of a \<open>then\<close> takes what the function returned: a value
  fulfils it, an exception rejects it, a promise is adopted in a later microtask.\<close>

fun resolve_with :: "nat \<Rightarrow> ret \<Rightarrow> channel \<Rightarrow> channel" where
  "resolve_with q (RetValue v) s = settle q (Fulfilled v) s"
| "resolve_with q (RetPromise r) s = enqueue (ThenableJob q r) s"
| "resolve_with q (RetThrow e) s = settle q (Rejected e) s"

fun run_job :: "job \<Rightarrow> channel \<Rightarrow> channel" where
  "run_job (ThenableJob q r) s = subscribe r (Forward q) s"
| "run_job (ReactionJob (Forward q) outcome) s = settle q outcome s"
| "run_job (ReactionJob (Then onFulfilled onRejected q) Pending) s = s"
| "run_job (ReactionJob (Then onFulfilled onRejected q) (Fulfilled v)) s =
     (case onFulfilled of
        None \<Rightarrow> settle q (Fulfilled v) s
      | Some f \<Rightarrow> (let (r, s1) = call_callback f v s in resolve_with q r s1))"
| "run_job (ReactionJob (Then onFulfilled onRejected q) (Rejected e)) s =
     (case onRejected of
        None \<Rightarrow> settle q (Rejected e) s
      | Some f \<Rightarrow> (let (r, s1) = call_callback f e s in resolve_with q r s1))"

definition microtask :: "channel \<Rightarrow> channel" where
  "microtask s =
     (case microtasks s of
        [] \<Rightarrow> s
      | j # js \<Rightarrow> run_job j (s\<lparr>microtasks := js\<rparr>))"

subsection \<open>The public methods\<close>

text \<open>\<open>sendHandshake()\<close> returns \<open>this._whenReady\<close> (\<open>None\<close> is \<open>undefined\<close>) or throws.\<close>

definition sendHandshake :: "channel \<Rightarrow> jsval + (nat option \<times> channel)" where
  "sendHandshake s =
     (if connected s then Inl HANDSHAKE_COMPLETED_ERROR
      else if \<not> connecting s then
        (let s1 = s\<lparr>connecting := True\<rparr>;
             (p, s2) = priv_sendMessage HANDSHAKE_ACTION (JStr (hm s1)) (handshakeTimeout s1) s1;
             (q, s3) = promise_then p (Some SetConnected) None s2;
             (r, s4) = promise_then q None (Some HandshakeFailed) s3;
             s5 = s4\<lparr>whenReady := Some r\<rparr>
         in Inr (whenReady s5, s5))
      else Inr (whenReady s, s))"

text \<open>\<open>sendMessage(action, data, timeout = this._messageTimeout)\<close>; calling \<open>then\<close>
  on an \<open>undefined\<close> \<open>_whenReady\<close> is a \<open>TypeError\<close>.\<close>

definition sendMessage ::
  "string \<Rightarrow> jsval \<Rightarrow> int option \<Rightarrow> channel \<Rightarrow> jsval + (nat \<times> channel)" where
  "sendMessage action data timeoutArg s =
     (let timeout = (case timeoutArg of None \<Rightarrow> messageTimeout s | Some t \<Rightarrow> t);
          r1 = (if whenReady s = None
                then (case sendHandshake s of Inl e \<Rightarrow> Inl e | Inr (w, s1) \<Rightarrow> Inr s1)
                else Inr s)
      in case r1 of
           Inl e \<Rightarrow> Inl e
         | Inr s1 \<Rightarrow>
             (case whenReady s1 of
                None \<Rightarrow> Inl (JError ''TypeError'')
              | Some w \<Rightarrow> Inr (promise_then w (Some (IssueMessage action data timeout)) None s1)))"

subsection \<open>The ambient entry points\<close>

definition priv_handleMessage :: "string \<Rightarrow> jsval \<Rightarrow> channel \<Rightarrow> hresult" where
  "priv_handleMessage action data s =
     (case handleMessage s of
        Some f \<Rightarrow> f action data
      | None \<Rightarrow> HReturns JNull)"

text \<open>\<open>window[handlerGlobal]\<close>, the function \<open>(id, action, data) => ...\<close>. An exception
  of the handler, or of \<open>postMessage\<close>, leaves it as an exception.\<close>

definition handlerGlobal_fn :: "string \<Rightarrow> string \<Rightarrow> jsval \<Rightarrow> channel \<Rightarrow> jsval + channel" where
  "handlerGlobal_fn ident action data s =
     (case priv_handleMessage action data s of
        HThrows e \<Rightarrow> Inl e
      | HReturns v \<Rightarrow> priv_sendMessageCallback ident v s
      | HPromise st \<Rightarrow>
          (let (u, s1) = newPromise st s;
               s2 = s1\<lparr>userPromises := u # userPromises s1\<rparr>;
               (q, s3) = promise_then u (Some (ReplyWith ident)) None s2
           in Inr s3))"

text \<open>\<open>window[callbackGlobal]\<close>, the function \<open>(id, result) => ...\<close>.\<close>

definition callbackGlobal_fn :: "string \<Rightarrow> jsval \<Rightarrow> channel \<Rightarrow> channel" where
  "callbackGlobal_fn ident result s = emitter_trigger ident result s"

subsection \<open>The timer function\<close>

fun run_timer :: "timer_fn \<Rightarrow> channel \<Rightarrow> channel" where
  "run_timer (RejectTimeout ident p h) s =
     settle p (Rejected MESSAGE_TIMEOUT_REASON)
       (emitter_off ident (CallbackReceived p (Some h)) s)"

text \<open>A timer runs once, when its time has come, unless it was cleared before.\<close>

definition fire_timer :: "nat \<Rightarrow> channel \<Rightarrow> channel" where
  "fire_timer h s =
     (case find (\<lambda>t. fst t = h) (timers s) of
        None \<Rightarrow> s
      | Some (h', due, f) \<Rightarrow>
          (if due \<le> clock s
           then run_timer f (s\<lparr>timers := filter (\<lambda>t. fst t \<noteq> h) (timers s)\<rparr>)
           else s))"

subsection \<open>The constructor\<close>

text \<open>
  \<open>window.webkit\<close>: \<open>None\<close> when it is \<open>undefined\<close>, \<open>Some None\<close> when its
  \<open>messageHandlers\<close> is \<open>undefined\<close>, else the handlers by name. Reading a property of
  \<open>undefined\<close> throws; reading a name the object does not have gives \<open>undefined\<close>.
\<close>

type_synonym window = "(string \<times> nat) list option option"

record options =
  optHandleMessage :: "(string \<Rightarrow> jsval \<Rightarrow> hresult) option"
  scriptMessageHandler :: string
  handlerGlobal :: string
  callbackGlobal :: string
  optHandshakeTimeout :: int
  optMessageTimeout :: int
  idGenerator :: idGenerator
  autoHandshake :: bool

definition default_options :: options where
  "default_options =
     \<lparr>optHandleMessage = None,
      scriptMessageHandler = ''wkPostMessage'',
      handlerGlobal = ''wkPostMessengerHandleMessage'',
      callbackGlobal = ''wkPostMessengerCallback'',
      optHandshakeTimeout = DEFAULT_TIMEOUT,
      optMessageTimeout = DEFAULT_TIMEOUT,
      idGenerator = Timestamp timestampIdGenerator,
      autoHandshake = True\<rparr>"

definition cannot_add_handler :: "string \<Rightarrow> jsval" where
  "cannot_add_handler name = JError (''Can'' @ [CHR 0x27] @ ''t add message handler '' @ name)"

text \<open>\<open>new WKPostMessenger(options)\<close> in a runtime whose clock reads \<open>t0\<close>.\<close>

definition constructor :: "options \<Rightarrow> window \<Rightarrow> int \<Rightarrow> jsval + channel" where
  "constructor opts webkit t0 =
     (case (case webkit of
              None \<Rightarrow> Inl (cannot_add_handler (scriptMessageHandler opts))
            | Some None \<Rightarrow> Inl (cannot_add_handler (scriptMessageHandler opts))
            | Some (Some messageHandlers) \<Rightarrow>
                Inr (map_of messageHandlers (scriptMessageHandler opts)))
      of
        Inl e \<Rightarrow> Inl e
      | Inr target \<Rightarrow>
          (let s = \<lparr>connecting = False,
                    connected = False,
                    whenReady = None,
                    hm = handlerGlobal opts,
                    cb = callbackGlobal opts,
                    handshakeTimeout = optHandshakeTimeout opts,
                    messageTimeout = optMessageTimeout opts,
                    idGen = idGenerator opts,
                    handleMessage = optHandleMessage opts,
                    parent = target,
                    emitter = (\<lambda>ev. []),
                    promises = (\<lambda>p. Pending),
                    reactions = (\<lambda>p. []),
                    npromises = 0,
                    userPromises = [],
                    timers = [],
                    ntimers = 0,
                    microtasks = [],
                    clock = t0,
                    globals = [],
                    sent = []\<rparr>;
               s1 = s\<lparr>globals := (handlerGlobal opts, HandlerEntry) # globals s\<rparr>;
               s2 = s1\<lparr>globals := (callbackGlobal opts, CallbackEntry) # globals s1\<rparr>
           in if autoHandshake opts
              then (case sendHandshake s2 of Inl e \<Rightarrow> Inl e | Inr (w, s3) \<Rightarrow> Inr s3)
              else Inr s2))"

subsection \<open>Events\<close>

text \<open>
  What can happen to a channel: a call of one of its public methods, the remote side
  calling an ambient entry point, a timer coming due, one job of the microtask queue,
  time passing, and the user's code settling a promise its handler returned.
  An exception goes to the caller and leaves the channel as it was.
\<close>

datatype event =
    CallSendHandshake
  | CallSendMessage string jsval "int option"
  | InvokeHandler string string jsval
  | InvokeCallback string jsval
  | TimerFires nat
  | Microtask
  | Tick nat
  | UserSettles nat pstate

fun step :: "event \<Rightarrow> channel \<Rightarrow> channel" where
  "step CallSendHandshake s = (case sendHandshake s of Inl e \<Rightarrow> s | Inr (w, s1) \<Rightarrow> s1)"
| "step (CallSendMessage action data timeoutArg) s =
     (case sendMessage action data timeoutArg s of Inl e \<Rightarrow> s | Inr (m, s1) \<Rightarrow> s1)"
| "step (InvokeHandler ident action data) s =
     (case handlerGlobal_fn ident action data s of Inl e \<Rightarrow> s | Inr s1 \<Rightarrow> s1)"
| "step (InvokeCallback ident result) s = callbackGlobal_fn ident result s"
| "step (TimerFires h) s = fire_timer h s"
| "step Microtask s = microtask s"
| "step (Tick dt) s = s\<lparr>clock := clock s + int dt\<rparr>"
| "step (UserSettles u outcome) s =
     (if u \<in> set (userPromises s) \<and> outcome \<noteq> Pending then settle u outcome s else s)"

definition run :: "event list \<Rightarrow> channel \<Rightarrow> channel" where
  "run evs s = fold step evs s"

section \<open>Notions used to state the properties\<close>

text \<open>The id a call of \<open>_sendMessage\<close> on \<open>s\<close> draws from the generator.\<close>

definition next_id :: "channel \<Rightarrow> string" where
  "next_id s = fst (idGen_next (clock s) (idGen s))"

text \<open>A page whose \<open>window.webkit.messageHandlers\<close> has the default handler, and a
  channel constructed there with \<open>autoHandshake: false\<close> while the clock reads 1000.\<close>

definition example_window :: window where
  "example_window = Some (Some [(''wkPostMessage'', 0)])"

definition example_channel :: channel where
  "example_channel =
     projr (constructor (default_options\<lparr>autoHandshake := False\<rparr>) example_window 1000)"

text \<open>A window whose \<open>webkit.messageHandlers\<close> exists and has no handler named
  \<open>wkPostMessage\<close>, and the channel constructed there with \<open>autoHandshake: false\<close> while
  the clock reads 1000: its \<open>parent\<close> is \<open>undefined\<close>.\<close>

definition unlocated_window :: window where
  "unlocated_window = Some (Some [(''otherHandler'', 0)])"

definition unlocated_channel :: channel where
  "unlocated_channel =
     projr (constructor (default_options\<lparr>autoHandshake := False\<rparr>) unlocated_window 1000)"

text \<open>The connection state of the specification, read off the two flags of the instance.\<close>

datatype phase = Unconnected | Connecting | Connected

definition phase :: "channel \<Rightarrow> phase" where
  "phase s = (if connected s then Connected else if connecting s then Connecting else Unconnected)"

fun phase_rank :: "phase \<Rightarrow> nat" where
  "phase_rank Unconnected = 0"
| "phase_rank Connecting = 1"
| "phase_rank Connected = 2"

text \<open>The function of the source that a job of the microtask queue will call, if any.\<close>

fun job_callback :: "job \<Rightarrow> callback option" where
  "job_callback (ReactionJob (Then onFulfilled onRejected q) (Fulfilled v)) = onFulfilled"
| "job_callback (ReactionJob (Then onFulfilled onRejected q) (Rejected e)) = onRejected"
| "job_callback j = None"






subsection \<open>Consistency of a channel\<close>

text \<open>
  What a timer, a waiter of the emitter, a \<open>then\<close> registration and a queued job refer to.
\<close>

fun timer_ident :: "nat \<times> int \<times> timer_fn \<Rightarrow> string" where
  "timer_ident (h, due, RejectTimeout ident p h') = ident"

fun timer_promise :: "nat \<times> int \<times> timer_fn \<Rightarrow> nat" where
  "timer_promise (h, due, RejectTimeout ident p h') = p"

fun timer_own :: "nat \<times> int \<times> timer_fn \<Rightarrow> nat" where
  "timer_own (h, due, RejectTimeout ident p h') = h'"

fun listener_promise :: "listener \<Rightarrow> nat" where
  "listener_promise (CallbackReceived p ho) = p"

fun listener_handle :: "listener \<Rightarrow> nat option" where
  "listener_handle (CallbackReceived p ho) = ho"

fun reaction_target :: "reaction \<Rightarrow> nat" where
  "reaction_target (Then onFulfilled onRejected q) = q"
| "reaction_target (Forward q) = q"

fun job_target :: "job \<Rightarrow> nat" where
  "job_target (ReactionJob r outcome) = reaction_target r"
| "job_target (ThenableJob q r) = q"

text \<open>A promise that an armed timer or a registered waiter of some \<open>_sendMessage\<close> call
  settles.\<close>

definition call_promise :: "channel \<Rightarrow> nat \<Rightarrow> bool" where
  "call_promise s x \<longleftrightarrow>
     (\<exists>t \<in> set (timers s). timer_promise t = x)
     \<or> (\<exists>ev. \<exists>l \<in> set (emitter s ev). listener_promise l = x)"

text \<open>Every armed timer has a handle of its own, already handed out, and belongs to a
  pending promise that exists.\<close>

definition timers_ok :: "channel \<Rightarrow> bool" where
  "timers_ok s \<longleftrightarrow>
     distinct (map fst (timers s))
     \<and> (\<forall>t \<in> set (timers s).
           timer_own t = fst t \<and> fst t < ntimers s
           \<and> timer_promise t < npromises s \<and> promises s (timer_promise t) = Pending)
     \<and> (\<forall>t \<in> set (timers s). \<forall>t' \<in> set (timers s).
           timer_promise t = timer_promise t' \<longrightarrow> fst t = fst t')"

text \<open>Every registered waiter belongs to a promise that exists and is not rejected, and
  clears a handle already handed out.\<close>

definition listeners_ok :: "channel \<Rightarrow> bool" where
  "listeners_ok s \<longleftrightarrow>
     (\<forall>ev. \<forall>l \<in> set (emitter s ev).
        listener_promise l < npromises s
        \<and> (\<forall>e. promises s (listener_promise l) \<noteq> Rejected e)
        \<and> (\<forall>h. listener_handle l = Some h \<longrightarrow> h < ntimers s))"

text \<open>An armed timer and a registered waiter are of the same call exactly when the waiter
  clears that timer, and then the waiter is registered under the id the timer removes it
  from.\<close>

definition linked :: "channel \<Rightarrow> bool" where
  "linked s \<longleftrightarrow>
     (\<forall>t \<in> set (timers s). \<forall>ev. \<forall>l \<in> set (emitter s ev).
        (listener_promise l = timer_promise t \<longrightarrow>
           listener_handle l = Some (fst t) \<and> ev = timer_ident t)
        \<and> (listener_handle l = Some (fst t) \<longrightarrow> listener_promise l = timer_promise t))"

text \<open>A promise that exists and that no call owns: the promises derived by \<open>then\<close> and
  the promises of the user's handler are of this kind.\<close>

definition free_promise :: "channel \<Rightarrow> nat \<Rightarrow> bool" where
  "free_promise s x \<longleftrightarrow> x < npromises s \<and> \<not> call_promise s x"

definition refs_ok :: "channel \<Rightarrow> bool" where
  "refs_ok s \<longleftrightarrow>
     (\<forall>x. \<forall>r \<in> set (reactions s x). free_promise s (reaction_target r))
     \<and> (\<forall>j \<in> set (microtasks s). free_promise s (job_target j))
     \<and> (\<forall>u \<in> set (userPromises s). free_promise s u)"

text \<open>The states a channel whose transport target was located can be in.\<close>

definition consistent :: "channel \<Rightarrow> bool" where
  "consistent s \<longleftrightarrow>
     parent s \<noteq> None \<and> timers_ok s \<and> listeners_ok s \<and> linked s \<and> refs_ok s"

text \<open>
  A call of \<open>_sendMessage\<close> in flight: its timer \<open>h\<close>, due at \<open>due\<close>, is armed and its
  waiter is registered under its id, for its promise \<open>p\<close>.
\<close>

definition in_flight :: "channel \<Rightarrow> nat \<Rightarrow> nat \<Rightarrow> string \<Rightarrow> int \<Rightarrow> bool" where
  "in_flight s p h ident due \<longleftrightarrow>
     consistent s
     \<and> (h, due, RejectTimeout ident p h) \<in> set (timers s)
     \<and> CallbackReceived p (Some h) \<in> set (emitter s ident)"

text \<open>Events that are neither a reply for the id nor the timer of the call.\<close>

fun quiet :: "string \<Rightarrow> nat \<Rightarrow> event \<Rightarrow> bool" where
  "quiet ident h (InvokeCallback ident' result) = (ident' \<noteq> ident)"
| "quiet ident h (TimerFires h') = (h' \<noteq> h)"
| "quiet ident h ev = True"

text \<open>From \<open>s\<close> to \<open>s'\<close> no promise is lost, and the promise \<open>p\<close>, if it exists and is
  settled in \<open>s\<close>, has the same state in \<open>s'\<close>.\<close>

definition keeps :: "nat \<Rightarrow> channel \<Rightarrow> channel \<Rightarrow> bool" where
  "keeps p s s' \<longleftrightarrow>
     npromises s \<le> npromises s'
     \<and> (p < npromises s \<and> promises s p \<noteq> Pending \<longrightarrow> promises s' p = promises s p)"

text \<open>From \<open>s\<close> to \<open>s'\<close> no timer is cleared and no waiter is removed.\<close>

definition grows :: "channel \<Rightarrow> channel \<Rightarrow> bool" where
  "grows s s' \<longleftrightarrow>
     set (timers s) \<subseteq> set (timers s') \<and> (\<forall>ev. set (emitter s ev) \<subseteq> set (emitter s' ev))"

subsection \<open>A message waiting for the handshake\<close>

text \<open>\<open>is_issue m r\<close>: the registration \<open>r\<close> is the one a \<open>sendMessage\<close> call made for the
  deferred \<open>m\<close> it returned, the function that issues the message.\<close>

fun is_issue :: "nat \<Rightarrow> reaction \<Rightarrow> bool" where
  "is_issue m (Then (Some (IssueMessage action data timeout)) onRejected q) = (q = m)"
| "is_issue m r = False"

text \<open>
  The message of the deferred \<open>m\<close> is gated by the handshake deferred \<open>r\<close>: the function that
  issues it is registered on \<open>r\<close> only, and only while \<open>r\<close> is pending, and a job queued for
  it carries the outcome of \<open>r\<close>.
\<close>

definition gated :: "channel \<Rightarrow> nat \<Rightarrow> nat \<Rightarrow> bool" where
  "gated s r m \<longleftrightarrow>
     r < npromises s \<and> m < npromises s
     \<and> (\<forall>x. \<forall>rc \<in> set (reactions s x). is_issue m rc \<longrightarrow> x = r \<and> promises s r = Pending)
     \<and> (\<forall>rc outcome. ReactionJob rc outcome \<in> set (microtasks s) \<and> is_issue m rc \<longrightarrow>
           outcome = Pending \<or> outcome = promises s r)"

section \<open>Decimal rendering is injective\<close>

lemma digit_cases:
  "d < 10 \<Longrightarrow> d = 0 \<or> d = 1 \<or> d = 2 \<or> d = 3 \<or> d = 4 \<or> d = 5 \<or> d = 6 \<or> d = 7 \<or> d = 8 \<or> d = (9::nat)"
  by arith

lemma digit_char_inj: "d < 10 \<Longrightarrow> e < 10 \<Longrightarrow> digit_char d = digit_char e \<Longrightarrow> d = e"
  using digit_cases [of d] digit_cases [of e] by (auto simp: digit_char_def)

lemma digit_char_zero: "d < 10 \<Longrightarrow> digit_char d = CHR ''0'' \<longleftrightarrow> d = 0"
  using digit_cases [of d] by (auto simp: digit_char_def)

lemma digit_char_not_minus: "d < 10 \<Longrightarrow> digit_char d \<noteq> CHR ''-''"
  using digit_cases [of d] by (auto simp: digit_char_def)

lemma digits_not_Nil: "digits n \<noteq> []"
  by (subst digits.simps) simp

lemma hd_digits_zero: "hd (digits n) = CHR ''0'' \<longleftrightarrow> n = 0"
proof (induction n rule: digits.induct)
  case (1 n)
  show ?case
  proof (cases "n < 10")
    case True
    then show ?thesis by (subst digits.simps) (simp add: digit_char_zero)
  next
    case False
    with 1 have "hd (digits (n div 10)) \<noteq> CHR ''0''" by simp
    with False show ?thesis by (subst digits.simps) (simp add: digits_not_Nil)
  qed
qed

lemma hd_digits_not_minus: "hd (digits n) \<noteq> CHR ''-''"
proof (induction n rule: digits.induct)
  case (1 n)
  show ?case
  proof (cases "n < 10")
    case True
    then show ?thesis by (subst digits.simps) (simp add: digit_char_not_minus)
  next
    case False
    with 1 show ?thesis by (subst digits.simps) (simp add: digits_not_Nil)
  qed
qed

lemma digits_inj: "digits m = digits n \<Longrightarrow> m = n"
proof (induction m arbitrary: n rule: digits.induct)
  case (1 m)
  show ?case
  proof (cases "m < 10")
    case m: True
    show ?thesis
    proof (cases "n < 10")
      case True
      with m "1.prems" show ?thesis
        by (simp add: digits.simps [of m] digits.simps [of n] digit_char_inj)
    next
      case False
      with m "1.prems" digits_not_Nil [of "n div 10"] show ?thesis
        by (simp add: digits.simps [of m] digits.simps [of n])
    qed
  next
    case m: False
    show ?thesis
    proof (cases "n < 10")
      case True
      with m "1.prems" digits_not_Nil [of "m div 10"] show ?thesis
        by (simp add: digits.simps [of m] digits.simps [of n])
    next
      case False
      with m "1.prems" have a: "digits (m div 10) = digits (n div 10)"
        and b: "digit_char (m mod 10) = digit_char (n mod 10)"
        by (simp_all add: digits.simps [of m] digits.simps [of n])
      from "1.IH" [OF m a] have "m div 10 = n div 10" .
      moreover from b have "m mod 10 = n mod 10" by (simp add: digit_char_inj)
      ultimately show ?thesis by (metis div_mult_mod_eq)
    qed
  qed
qed

lemma numToString_inj: "numToString i = numToString j \<Longrightarrow> i = j"
proof -
  assume eq: "numToString i = numToString j"
  have neg: "CHR ''-'' # digits a \<noteq> digits b" for a b
    using hd_digits_not_minus [of b] by (metis list.sel(1))
  show "i = j"
  proof (cases "i < 0")
    case i: True
    show ?thesis
    proof (cases "j < 0")
      case True
      with i eq have "nat (- i) = nat (- j)" by (simp add: numToString_def digits_inj)
      with i True show ?thesis by simp
    next
      case False
      with i eq neg show ?thesis by (simp add: numToString_def)
    qed
  next
    case i: False
    show ?thesis
    proof (cases "j < 0")
      case True
      with i eq neg [of "nat (- j)" "nat i"] show ?thesis by (simp add: numToString_def)
    next
      case False
      with i eq have "nat i = nat j" by (simp add: numToString_def digits_inj)
      with i False show ?thesis by simp
    qed
  qed
qed

lemma digits_append_neq_zero:
  "n \<noteq> 0 \<Longrightarrow> digits n @ u \<noteq> digits 0 @ v"
proof
  assume n: "n \<noteq> 0" and eq: "digits n @ u = digits 0 @ v"
  then have "hd (digits n @ u) = hd (digits 0 @ v)" by simp
  then have "hd (digits n) = hd (digits 0)" by (simp add: digits_not_Nil)
  with n show False using hd_digits_zero [of n] hd_digits_zero [of 0] by simp
qed

section \<open>Properties of the token generator\<close>

text \<open>
  Claim C9. Whatever the state of the token generator and whatever \<open>Date.now()\<close> reads at
  the two calls, two successive \<open>next()\<close> calls never return equal ids.
\<close>

theorem gen_next_successive_distinct:
  "fst (gen_next t2 (snd (gen_next t1 g))) \<noteq> fst (gen_next t1 g)"
proof (cases "t2 = t1")
  case True
  have "digits (Suc k) \<noteq> digits k" for k using digits_inj [of "Suc k" k] by auto
  with True show ?thesis by (simp add: gen_next_def Let_def)
next
  case False
  then have ts: "numToString t2 \<noteq> numToString t1" using numToString_inj by blast
  show ?thesis
  proof (cases "now g = Some t1")
    case True
    with False ts show ?thesis
      using digits_append_neq_zero [of "Suc (inc g)" "numToString t1" "numToString t2"]
      by (auto simp: gen_next_def Let_def)
  next
    case False
    with \<open>t2 \<noteq> t1\<close> ts show ?thesis by (simp add: gen_next_def Let_def)
  qed
qed

section \<open>What each operation does to each field\<close>

text \<open>
  The operations are compositions of a few primitives. For each one, the fields it leaves
  alone and the new value of each field it changes; the proofs that follow compute with
  these equations and leave the definitions folded.
\<close>

lemma newPromise_same [simp]:
  "connecting (snd (newPromise st s)) = connecting s"
  "connected (snd (newPromise st s)) = connected s"
  "whenReady (snd (newPromise st s)) = whenReady s"
  "hm (snd (newPromise st s)) = hm s"
  "cb (snd (newPromise st s)) = cb s"
  "handshakeTimeout (snd (newPromise st s)) = handshakeTimeout s"
  "messageTimeout (snd (newPromise st s)) = messageTimeout s"
  "idGen (snd (newPromise st s)) = idGen s"
  "handleMessage (snd (newPromise st s)) = handleMessage s"
  "parent (snd (newPromise st s)) = parent s"
  "emitter (snd (newPromise st s)) = emitter s"
  "userPromises (snd (newPromise st s)) = userPromises s"
  "timers (snd (newPromise st s)) = timers s"
  "ntimers (snd (newPromise st s)) = ntimers s"
  "microtasks (snd (newPromise st s)) = microtasks s"
  "clock (snd (newPromise st s)) = clock s"
  "globals (snd (newPromise st s)) = globals s"
  "sent (snd (newPromise st s)) = sent s"
  by (simp_all add: newPromise_def)

lemma newPromise_changed [simp]:
  "fst (newPromise st s) = npromises s"
  "promises (snd (newPromise st s)) = (promises s)(npromises s := st)"
  "reactions (snd (newPromise st s)) = (reactions s)(npromises s := [])"
  "npromises (snd (newPromise st s)) = Suc (npromises s)"
  by (simp_all add: newPromise_def)

lemma enqueue_same [simp]:
  "connecting (enqueue j s) = connecting s"
  "connected (enqueue j s) = connected s"
  "whenReady (enqueue j s) = whenReady s"
  "hm (enqueue j s) = hm s"
  "cb (enqueue j s) = cb s"
  "handshakeTimeout (enqueue j s) = handshakeTimeout s"
  "messageTimeout (enqueue j s) = messageTimeout s"
  "idGen (enqueue j s) = idGen s"
  "handleMessage (enqueue j s) = handleMessage s"
  "parent (enqueue j s) = parent s"
  "emitter (enqueue j s) = emitter s"
  "promises (enqueue j s) = promises s"
  "reactions (enqueue j s) = reactions s"
  "npromises (enqueue j s) = npromises s"
  "userPromises (enqueue j s) = userPromises s"
  "timers (enqueue j s) = timers s"
  "ntimers (enqueue j s) = ntimers s"
  "clock (enqueue j s) = clock s"
  "globals (enqueue j s) = globals s"
  "sent (enqueue j s) = sent s"
  by (simp_all add: enqueue_def)

lemma enqueue_changed [simp]:
  "microtasks (enqueue j s) = microtasks s @ [j]"
  by (simp add: enqueue_def)

lemma settle_same [simp]:
  "connecting (settle p outcome s) = connecting s"
  "connected (settle p outcome s) = connected s"
  "whenReady (settle p outcome s) = whenReady s"
  "hm (settle p outcome s) = hm s"
  "cb (settle p outcome s) = cb s"
  "handshakeTimeout (settle p outcome s) = handshakeTimeout s"
  "messageTimeout (settle p outcome s) = messageTimeout s"
  "idGen (settle p outcome s) = idGen s"
  "handleMessage (settle p outcome s) = handleMessage s"
  "parent (settle p outcome s) = parent s"
  "emitter (settle p outcome s) = emitter s"
  "npromises (settle p outcome s) = npromises s"
  "userPromises (settle p outcome s) = userPromises s"
  "timers (settle p outcome s) = timers s"
  "ntimers (settle p outcome s) = ntimers s"
  "clock (settle p outcome s) = clock s"
  "globals (settle p outcome s) = globals s"
  "sent (settle p outcome s) = sent s"
  by (simp_all add: settle_def)

lemma settle_changed:
  "promises (settle p outcome s) =
     (if promises s p = Pending then (promises s)(p := outcome) else promises s)"
  "reactions (settle p outcome s) =
     (if promises s p = Pending then (reactions s)(p := []) else reactions s)"
  "microtasks (settle p outcome s) =
     (if promises s p = Pending
      then microtasks s @ map (\<lambda>r. ReactionJob r outcome) (reactions s p)
      else microtasks s)"
  by (simp_all add: settle_def)

lemma settle_settled [simp]: "promises s p \<noteq> Pending \<Longrightarrow> settle p outcome s = s"
  by (simp add: settle_def)

lemma settle_pending [simp]:
  "promises s p = Pending \<Longrightarrow> promises (settle p outcome s) = (promises s)(p := outcome)"
  "promises s p = Pending \<Longrightarrow> reactions (settle p outcome s) = (reactions s)(p := [])"
  "promises s p = Pending \<Longrightarrow>
     microtasks (settle p outcome s) = microtasks s @ map (\<lambda>r. ReactionJob r outcome) (reactions s p)"
  by (simp_all add: settle_def)

lemma settle_other: "x \<noteq> p \<Longrightarrow> promises (settle p outcome s) x = promises s x"
  by (simp add: settle_def)

lemma subscribe_same [simp]:
  "connecting (subscribe p r s) = connecting s"
  "connected (subscribe p r s) = connected s"
  "whenReady (subscribe p r s) = whenReady s"
  "hm (subscribe p r s) = hm s"
  "cb (subscribe p r s) = cb s"
  "handshakeTimeout (subscribe p r s) = handshakeTimeout s"
  "messageTimeout (subscribe p r s) = messageTimeout s"
  "idGen (subscribe p r s) = idGen s"
  "handleMessage (subscribe p r s) = handleMessage s"
  "parent (subscribe p r s) = parent s"
  "emitter (subscribe p r s) = emitter s"
  "promises (subscribe p r s) = promises s"
  "npromises (subscribe p r s) = npromises s"
  "userPromises (subscribe p r s) = userPromises s"
  "timers (subscribe p r s) = timers s"
  "ntimers (subscribe p r s) = ntimers s"
  "clock (subscribe p r s) = clock s"
  "globals (subscribe p r s) = globals s"
  "sent (subscribe p r s) = sent s"
  by (simp_all add: subscribe_def split: pstate.splits)

lemma subscribe_changed:
  "reactions (subscribe p r s) =
     (if promises s p = Pending then (reactions s)(p := reactions s p @ [r]) else reactions s)"
  "microtasks (subscribe p r s) =
     (if promises s p = Pending then microtasks s
      else microtasks s @ [ReactionJob r (promises s p)])"
  by (simp_all add: subscribe_def split: pstate.splits)

lemma subscribe_pending [simp]:
  "promises s p = Pending \<Longrightarrow> reactions (subscribe p r s) = (reactions s)(p := reactions s p @ [r])"
  "promises s p = Pending \<Longrightarrow> microtasks (subscribe p r s) = microtasks s"
  by (simp_all add: subscribe_changed)

lemma subscribe_settled [simp]:
  "promises s p \<noteq> Pending \<Longrightarrow> reactions (subscribe p r s) = reactions s"
  "promises s p \<noteq> Pending \<Longrightarrow>
     microtasks (subscribe p r s) = microtasks s @ [ReactionJob r (promises s p)]"
  by (simp_all add: subscribe_changed)

lemma promise_then_same [simp]:
  "connecting (snd (promise_then p f g s)) = connecting s"
  "connected (snd (promise_then p f g s)) = connected s"
  "whenReady (snd (promise_then p f g s)) = whenReady s"
  "hm (snd (promise_then p f g s)) = hm s"
  "cb (snd (promise_then p f g s)) = cb s"
  "handshakeTimeout (snd (promise_then p f g s)) = handshakeTimeout s"
  "messageTimeout (snd (promise_then p f g s)) = messageTimeout s"
  "idGen (snd (promise_then p f g s)) = idGen s"
  "handleMessage (snd (promise_then p f g s)) = handleMessage s"
  "parent (snd (promise_then p f g s)) = parent s"
  "emitter (snd (promise_then p f g s)) = emitter s"
  "userPromises (snd (promise_then p f g s)) = userPromises s"
  "timers (snd (promise_then p f g s)) = timers s"
  "ntimers (snd (promise_then p f g s)) = ntimers s"
  "clock (snd (promise_then p f g s)) = clock s"
  "globals (snd (promise_then p f g s)) = globals s"
  "sent (snd (promise_then p f g s)) = sent s"
  by (simp_all add: promise_then_def split_def)

lemma promise_then_changed [simp]:
  "fst (promise_then p f g s) = npromises s"
  "promises (snd (promise_then p f g s)) = (promises s)(npromises s := Pending)"
  "npromises (snd (promise_then p f g s)) = Suc (npromises s)"
  by (simp_all add: promise_then_def split_def)

lemma promise_then_queue:
  "p \<noteq> npromises s \<Longrightarrow> reactions (snd (promise_then p f g s)) =
     (if promises s p = Pending
      then (reactions s)(npromises s := [], p := reactions s p @ [Then f g (npromises s)])
      else (reactions s)(npromises s := []))"
  "p \<noteq> npromises s \<Longrightarrow> microtasks (snd (promise_then p f g s)) =
     (if promises s p = Pending then microtasks s
      else microtasks s @ [ReactionJob (Then f g (npromises s)) (promises s p)])"
  by (simp_all add: promise_then_def split_def subscribe_changed)

lemma setTimeout_same [simp]:
  "connecting (setTimeout f delay s) = connecting s"
  "connected (setTimeout f delay s) = connected s"
  "whenReady (setTimeout f delay s) = whenReady s"
  "hm (setTimeout f delay s) = hm s"
  "cb (setTimeout f delay s) = cb s"
  "handshakeTimeout (setTimeout f delay s) = handshakeTimeout s"
  "messageTimeout (setTimeout f delay s) = messageTimeout s"
  "idGen (setTimeout f delay s) = idGen s"
  "handleMessage (setTimeout f delay s) = handleMessage s"
  "parent (setTimeout f delay s) = parent s"
  "emitter (setTimeout f delay s) = emitter s"
  "promises (setTimeout f delay s) = promises s"
  "reactions (setTimeout f delay s) = reactions s"
  "npromises (setTimeout f delay s) = npromises s"
  "userPromises (setTimeout f delay s) = userPromises s"
  "microtasks (setTimeout f delay s) = microtasks s"
  "clock (setTimeout f delay s) = clock s"
  "globals (setTimeout f delay s) = globals s"
  "sent (setTimeout f delay s) = sent s"
  by (simp_all add: setTimeout_def)

lemma setTimeout_changed [simp]:
  "timers (setTimeout f delay s) = timers s @ [(ntimers s, clock s + delay, f)]"
  "ntimers (setTimeout f delay s) = Suc (ntimers s)"
  by (simp_all add: setTimeout_def)

lemma clearTimeout_same [simp]:
  "connecting (clearTimeout ho s) = connecting s"
  "connected (clearTimeout ho s) = connected s"
  "whenReady (clearTimeout ho s) = whenReady s"
  "hm (clearTimeout ho s) = hm s"
  "cb (clearTimeout ho s) = cb s"
  "handshakeTimeout (clearTimeout ho s) = handshakeTimeout s"
  "messageTimeout (clearTimeout ho s) = messageTimeout s"
  "idGen (clearTimeout ho s) = idGen s"
  "handleMessage (clearTimeout ho s) = handleMessage s"
  "parent (clearTimeout ho s) = parent s"
  "emitter (clearTimeout ho s) = emitter s"
  "promises (clearTimeout ho s) = promises s"
  "reactions (clearTimeout ho s) = reactions s"
  "npromises (clearTimeout ho s) = npromises s"
  "userPromises (clearTimeout ho s) = userPromises s"
  "ntimers (clearTimeout ho s) = ntimers s"
  "microtasks (clearTimeout ho s) = microtasks s"
  "clock (clearTimeout ho s) = clock s"
  "globals (clearTimeout ho s) = globals s"
  "sent (clearTimeout ho s) = sent s"
  by (simp_all add: clearTimeout_def split: option.splits)

lemma clearTimeout_changed [simp]:
  "timers (clearTimeout ho s) =
     (case ho of None \<Rightarrow> timers s | Some h \<Rightarrow> filter (\<lambda>t. fst t \<noteq> h) (timers s))"
  by (simp add: clearTimeout_def split: option.splits)

lemma emitter_on_same [simp]:
  "connecting (emitter_on ev l s) = connecting s"
  "connected (emitter_on ev l s) = connected s"
  "whenReady (emitter_on ev l s) = whenReady s"
  "hm (emitter_on ev l s) = hm s"
  "cb (emitter_on ev l s) = cb s"
  "handshakeTimeout (emitter_on ev l s) = handshakeTimeout s"
  "messageTimeout (emitter_on ev l s) = messageTimeout s"
  "idGen (emitter_on ev l s) = idGen s"
  "handleMessage (emitter_on ev l s) = handleMessage s"
  "parent (emitter_on ev l s) = parent s"
  "promises (emitter_on ev l s) = promises s"
  "reactions (emitter_on ev l s) = reactions s"
  "npromises (emitter_on ev l s) = npromises s"
  "userPromises (emitter_on ev l s) = userPromises s"
  "timers (emitter_on ev l s) = timers s"
  "ntimers (emitter_on ev l s) = ntimers s"
  "microtasks (emitter_on ev l s) = microtasks s"
  "clock (emitter_on ev l s) = clock s"
  "globals (emitter_on ev l s) = globals s"
  "sent (emitter_on ev l s) = sent s"
  by (simp_all add: emitter_on_def)

lemma emitter_on_changed [simp]:
  "emitter (emitter_on ev l s) = (emitter s)(ev := emitter s ev @ [l])"
  by (simp add: emitter_on_def)

lemma emitter_off_same [simp]:
  "connecting (emitter_off ev l s) = connecting s"
  "connected (emitter_off ev l s) = connected s"
  "whenReady (emitter_off ev l s) = whenReady s"
  "hm (emitter_off ev l s) = hm s"
  "cb (emitter_off ev l s) = cb s"
  "handshakeTimeout (emitter_off ev l s) = handshakeTimeout s"
  "messageTimeout (emitter_off ev l s) = messageTimeout s"
  "idGen (emitter_off ev l s) = idGen s"
  "handleMessage (emitter_off ev l s) = handleMessage s"
  "parent (emitter_off ev l s) = parent s"
  "promises (emitter_off ev l s) = promises s"
  "reactions (emitter_off ev l s) = reactions s"
  "npromises (emitter_off ev l s) = npromises s"
  "userPromises (emitter_off ev l s) = userPromises s"
  "timers (emitter_off ev l s) = timers s"
  "ntimers (emitter_off ev l s) = ntimers s"
  "microtasks (emitter_off ev l s) = microtasks s"
  "clock (emitter_off ev l s) = clock s"
  "globals (emitter_off ev l s) = globals s"
  "sent (emitter_off ev l s) = sent s"
  by (simp_all add: emitter_off_def)

lemma emitter_off_changed [simp]:
  "emitter (emitter_off ev l s) = (emitter s)(ev := removeAll l (emitter s ev))"
  by (simp add: emitter_off_def)

lemma callbackReceived_same [simp]:
  "connecting (callbackReceived l arg s) = connecting s"
  "connected (callbackReceived l arg s) = connected s"
  "whenReady (callbackReceived l arg s) = whenReady s"
  "hm (callbackReceived l arg s) = hm s"
  "cb (callbackReceived l arg s) = cb s"
  "handshakeTimeout (callbackReceived l arg s) = handshakeTimeout s"
  "messageTimeout (callbackReceived l arg s) = messageTimeout s"
  "idGen (callbackReceived l arg s) = idGen s"
  "handleMessage (callbackReceived l arg s) = handleMessage s"
  "parent (callbackReceived l arg s) = parent s"
  "emitter (callbackReceived l arg s) = emitter s"
  "npromises (callbackReceived l arg s) = npromises s"
  "userPromises (callbackReceived l arg s) = userPromises s"
  "ntimers (callbackReceived l arg s) = ntimers s"
  "clock (callbackReceived l arg s) = clock s"
  "globals (callbackReceived l arg s) = globals s"
  "sent (callbackReceived l arg s) = sent s"
  by (cases l; simp)+

lemma callbackReceived_timers [simp]:
  "timers (callbackReceived (CallbackReceived p ho) arg s) =
     (case ho of None \<Rightarrow> timers s | Some h \<Rightarrow> filter (\<lambda>t. fst t \<noteq> h) (timers s))"
  by simp

lemma fold_callbackReceived_same [simp]:
  "connecting (fold (\<lambda>l. callbackReceived l arg) ls s) = connecting s"
  "connected (fold (\<lambda>l. callbackReceived l arg) ls s) = connected s"
  "whenReady (fold (\<lambda>l. callbackReceived l arg) ls s) = whenReady s"
  "hm (fold (\<lambda>l. callbackReceived l arg) ls s) = hm s"
  "cb (fold (\<lambda>l. callbackReceived l arg) ls s) = cb s"
  "handshakeTimeout (fold (\<lambda>l. callbackReceived l arg) ls s) = handshakeTimeout s"
  "messageTimeout (fold (\<lambda>l. callbackReceived l arg) ls s) = messageTimeout s"
  "idGen (fold (\<lambda>l. callbackReceived l arg) ls s) = idGen s"
  "handleMessage (fold (\<lambda>l. callbackReceived l arg) ls s) = handleMessage s"
  "parent (fold (\<lambda>l. callbackReceived l arg) ls s) = parent s"
  "emitter (fold (\<lambda>l. callbackReceived l arg) ls s) = emitter s"
  "npromises (fold (\<lambda>l. callbackReceived l arg) ls s) = npromises s"
  "userPromises (fold (\<lambda>l. callbackReceived l arg) ls s) = userPromises s"
  "ntimers (fold (\<lambda>l. callbackReceived l arg) ls s) = ntimers s"
  "clock (fold (\<lambda>l. callbackReceived l arg) ls s) = clock s"
  "globals (fold (\<lambda>l. callbackReceived l arg) ls s) = globals s"
  "sent (fold (\<lambda>l. callbackReceived l arg) ls s) = sent s"
  by (induction ls arbitrary: s; simp)+

lemma emitter_trigger_same [simp]:
  "connecting (emitter_trigger ev arg s) = connecting s"
  "connected (emitter_trigger ev arg s) = connected s"
  "whenReady (emitter_trigger ev arg s) = whenReady s"
  "hm (emitter_trigger ev arg s) = hm s"
  "cb (emitter_trigger ev arg s) = cb s"
  "handshakeTimeout (emitter_trigger ev arg s) = handshakeTimeout s"
  "messageTimeout (emitter_trigger ev arg s) = messageTimeout s"
  "idGen (emitter_trigger ev arg s) = idGen s"
  "handleMessage (emitter_trigger ev arg s) = handleMessage s"
  "parent (emitter_trigger ev arg s) = parent s"
  "emitter (emitter_trigger ev arg s) = emitter s"
  "npromises (emitter_trigger ev arg s) = npromises s"
  "userPromises (emitter_trigger ev arg s) = userPromises s"
  "ntimers (emitter_trigger ev arg s) = ntimers s"
  "clock (emitter_trigger ev arg s) = clock s"
  "globals (emitter_trigger ev arg s) = globals s"
  "sent (emitter_trigger ev arg s) = sent s"
  by (simp_all add: emitter_trigger_def)

lemma callbackGlobal_fn_same [simp]:
  "connecting (callbackGlobal_fn ident arg s) = connecting s"
  "connected (callbackGlobal_fn ident arg s) = connected s"
  "whenReady (callbackGlobal_fn ident arg s) = whenReady s"
  "hm (callbackGlobal_fn ident arg s) = hm s"
  "cb (callbackGlobal_fn ident arg s) = cb s"
  "handshakeTimeout (callbackGlobal_fn ident arg s) = handshakeTimeout s"
  "messageTimeout (callbackGlobal_fn ident arg s) = messageTimeout s"
  "idGen (callbackGlobal_fn ident arg s) = idGen s"
  "handleMessage (callbackGlobal_fn ident arg s) = handleMessage s"
  "parent (callbackGlobal_fn ident arg s) = parent s"
  "emitter (callbackGlobal_fn ident arg s) = emitter s"
  "npromises (callbackGlobal_fn ident arg s) = npromises s"
  "userPromises (callbackGlobal_fn ident arg s) = userPromises s"
  "ntimers (callbackGlobal_fn ident arg s) = ntimers s"
  "clock (callbackGlobal_fn ident arg s) = clock s"
  "globals (callbackGlobal_fn ident arg s) = globals s"
  "sent (callbackGlobal_fn ident arg s) = sent s"
  by (simp_all add: callbackGlobal_fn_def)

lemma postMessage_located [simp]:
  "parent s \<noteq> None \<Longrightarrow> postMessage payload s = Inr (s\<lparr>sent := sent s @ [payload]\<rparr>)"
  by (auto simp: postMessage_def)

lemma postMessage_undefined [simp]:
  "parent s = None \<Longrightarrow> postMessage payload s = Inl (JError ''TypeError'')"
  by (simp add: postMessage_def)

lemma priv_sendMessage_same [simp]:
  "connecting (snd (priv_sendMessage action data timeout s)) = connecting s"
  "connected (snd (priv_sendMessage action data timeout s)) = connected s"
  "whenReady (snd (priv_sendMessage action data timeout s)) = whenReady s"
  "hm (snd (priv_sendMessage action data timeout s)) = hm s"
  "cb (snd (priv_sendMessage action data timeout s)) = cb s"
  "handshakeTimeout (snd (priv_sendMessage action data timeout s)) = handshakeTimeout s"
  "messageTimeout (snd (priv_sendMessage action data timeout s)) = messageTimeout s"
  "handleMessage (snd (priv_sendMessage action data timeout s)) = handleMessage s"
  "parent (snd (priv_sendMessage action data timeout s)) = parent s"
  "userPromises (snd (priv_sendMessage action data timeout s)) = userPromises s"
  "clock (snd (priv_sendMessage action data timeout s)) = clock s"
  "globals (snd (priv_sendMessage action data timeout s)) = globals s"
  by (cases "parent s"; simp add: priv_sendMessage_def split_def Let_def)+

lemma priv_sendMessage_changed [simp]:
  "fst (priv_sendMessage action data timeout s) = npromises s"
  "idGen (snd (priv_sendMessage action data timeout s)) = snd (idGen_next (clock s) (idGen s))"
  "npromises (snd (priv_sendMessage action data timeout s)) = Suc (npromises s)"
  "reactions (snd (priv_sendMessage action data timeout s)) = (reactions s)(npromises s := [])"
  "microtasks (snd (priv_sendMessage action data timeout s)) = microtasks s"
  "emitter (snd (priv_sendMessage action data timeout s)) =
     (emitter s)(next_id s := emitter s (next_id s) @
        [CallbackReceived (npromises s) (if 0 < timeout then Some (ntimers s) else None)])"
  "timers (snd (priv_sendMessage action data timeout s)) =
     (if 0 < timeout
      then timers s @ [(ntimers s, clock s + timeout, RejectTimeout (next_id s) (npromises s) (ntimers s))]
      else timers s)"
  "ntimers (snd (priv_sendMessage action data timeout s)) =
     (if 0 < timeout then Suc (ntimers s) else ntimers s)"
  by (cases "parent s"; simp add: priv_sendMessage_def split_def Let_def next_id_def settle_changed)+

lemma priv_sendMessage_located [simp]:
  "parent s \<noteq> None \<Longrightarrow>
     promises (snd (priv_sendMessage action data timeout s)) = (promises s)(npromises s := Pending)"
  "parent s \<noteq> None \<Longrightarrow>
     sent (snd (priv_sendMessage action data timeout s)) =
       sent s @ [request_payload (cb s) (next_id s) action data]"
  by (simp_all add: priv_sendMessage_def split_def Let_def next_id_def)

lemma priv_sendMessage_undefined [simp]:
  "parent s = None \<Longrightarrow>
     promises (snd (priv_sendMessage action data timeout s)) =
       (promises s)(npromises s := Rejected (JError ''TypeError''))"
  "parent s = None \<Longrightarrow> sent (snd (priv_sendMessage action data timeout s)) = sent s"
  by (simp_all add: priv_sendMessage_def split_def Let_def settle_changed)

lemma run_timer_same [simp]:
  "connecting (run_timer f s) = connecting s"
  "connected (run_timer f s) = connected s"
  "whenReady (run_timer f s) = whenReady s"
  "hm (run_timer f s) = hm s"
  "cb (run_timer f s) = cb s"
  "handshakeTimeout (run_timer f s) = handshakeTimeout s"
  "messageTimeout (run_timer f s) = messageTimeout s"
  "idGen (run_timer f s) = idGen s"
  "handleMessage (run_timer f s) = handleMessage s"
  "parent (run_timer f s) = parent s"
  "npromises (run_timer f s) = npromises s"
  "userPromises (run_timer f s) = userPromises s"
  "timers (run_timer f s) = timers s"
  "ntimers (run_timer f s) = ntimers s"
  "clock (run_timer f s) = clock s"
  "globals (run_timer f s) = globals s"
  "sent (run_timer f s) = sent s"
  by (cases f; simp)+

lemma find_handle_Some:
  "find (\<lambda>t. fst t = h) ts = Some t \<Longrightarrow> t \<in> set ts \<and> fst t = h"
  by (induction ts) (auto split: if_splits)

lemma find_handle_None:
  "find (\<lambda>t. fst t = h) ts = None \<longleftrightarrow> (\<forall>t \<in> set ts. fst t \<noteq> h)"
  by (induction ts) auto

lemma fire_timer_unarmed [simp]: "\<forall>t \<in> set (timers s). fst t \<noteq> h \<Longrightarrow> fire_timer h s = s"
  by (simp add: fire_timer_def find_handle_None [THEN iffD2])

lemma fire_timer_same [simp]:
  "connecting (fire_timer h s) = connecting s"
  "connected (fire_timer h s) = connected s"
  "whenReady (fire_timer h s) = whenReady s"
  "hm (fire_timer h s) = hm s"
  "cb (fire_timer h s) = cb s"
  "handshakeTimeout (fire_timer h s) = handshakeTimeout s"
  "messageTimeout (fire_timer h s) = messageTimeout s"
  "idGen (fire_timer h s) = idGen s"
  "handleMessage (fire_timer h s) = handleMessage s"
  "parent (fire_timer h s) = parent s"
  "npromises (fire_timer h s) = npromises s"
  "userPromises (fire_timer h s) = userPromises s"
  "ntimers (fire_timer h s) = ntimers s"
  "clock (fire_timer h s) = clock s"
  "globals (fire_timer h s) = globals s"
  "sent (fire_timer h s) = sent s"
  by (simp_all add: fire_timer_def split: option.splits prod.splits)

lemma priv_sendMessageCallback_located [simp]:
  "parent s \<noteq> None \<Longrightarrow>
     priv_sendMessageCallback ident data s = Inr (s\<lparr>sent := sent s @ [reply_payload ident data]\<rparr>)"
  by (simp add: priv_sendMessageCallback_def)

lemma priv_sendMessageCallback_undefined [simp]:
  "parent s = None \<Longrightarrow> priv_sendMessageCallback ident data s = Inl (JError ''TypeError'')"
  by (simp add: priv_sendMessageCallback_def)

lemma call_callback_same [simp]:
  "whenReady (snd (call_callback f v s)) = whenReady s"
  "hm (snd (call_callback f v s)) = hm s"
  "cb (snd (call_callback f v s)) = cb s"
  "handshakeTimeout (snd (call_callback f v s)) = handshakeTimeout s"
  "messageTimeout (snd (call_callback f v s)) = messageTimeout s"
  "handleMessage (snd (call_callback f v s)) = handleMessage s"
  "parent (snd (call_callback f v s)) = parent s"
  "userPromises (snd (call_callback f v s)) = userPromises s"
  "clock (snd (call_callback f v s)) = clock s"
  "globals (snd (call_callback f v s)) = globals s"
  by (cases f; cases "parent s"; simp add: split_def Let_def)+

lemma resolve_with_same [simp]:
  "connecting (resolve_with q r s) = connecting s"
  "connected (resolve_with q r s) = connected s"
  "whenReady (resolve_with q r s) = whenReady s"
  "hm (resolve_with q r s) = hm s"
  "cb (resolve_with q r s) = cb s"
  "handshakeTimeout (resolve_with q r s) = handshakeTimeout s"
  "messageTimeout (resolve_with q r s) = messageTimeout s"
  "idGen (resolve_with q r s) = idGen s"
  "handleMessage (resolve_with q r s) = handleMessage s"
  "parent (resolve_with q r s) = parent s"
  "emitter (resolve_with q r s) = emitter s"
  "npromises (resolve_with q r s) = npromises s"
  "userPromises (resolve_with q r s) = userPromises s"
  "timers (resolve_with q r s) = timers s"
  "ntimers (resolve_with q r s) = ntimers s"
  "clock (resolve_with q r s) = clock s"
  "globals (resolve_with q r s) = globals s"
  "sent (resolve_with q r s) = sent s"
  by (cases r; simp)+

lemma run_job_same [simp]:
  "whenReady (run_job j s) = whenReady s"
  "hm (run_job j s) = hm s"
  "cb (run_job j s) = cb s"
  "handshakeTimeout (run_job j s) = handshakeTimeout s"
  "messageTimeout (run_job j s) = messageTimeout s"
  "handleMessage (run_job j s) = handleMessage s"
  "parent (run_job j s) = parent s"
  "userPromises (run_job j s) = userPromises s"
  "clock (run_job j s) = clock s"
  "globals (run_job j s) = globals s"
  by (cases "(j, s)" rule: run_job.cases; simp add: split_def Let_def split: option.splits)+

lemma microtask_same [simp]:
  "whenReady (microtask s) = whenReady s"
  "hm (microtask s) = hm s"
  "cb (microtask s) = cb s"
  "handshakeTimeout (microtask s) = handshakeTimeout s"
  "messageTimeout (microtask s) = messageTimeout s"
  "handleMessage (microtask s) = handleMessage s"
  "parent (microtask s) = parent s"
  "userPromises (microtask s) = userPromises s"
  "clock (microtask s) = clock s"
  "globals (microtask s) = globals s"
  by (simp_all add: microtask_def split: list.splits)

lemma microtask_Nil [simp]: "microtasks s = [] \<Longrightarrow> microtask s = s"
  by (simp add: microtask_def)

lemma microtask_Cons: "microtasks s = j # js \<Longrightarrow> microtask s = run_job j (s\<lparr>microtasks := js\<rparr>)"
  by (simp add: microtask_def)

section \<open>The public methods, case by case\<close>

lemma sendHandshake_connected:
  "connected s \<Longrightarrow> sendHandshake s = Inl HANDSHAKE_COMPLETED_ERROR"
  by (simp add: sendHandshake_def)

lemma sendHandshake_connecting:
  "\<not> connected s \<Longrightarrow> connecting s \<Longrightarrow> sendHandshake s = Inr (whenReady s, s)"
  by (simp add: sendHandshake_def)

text \<open>The channel after a \<open>sendHandshake()\<close> that starts an attempt.\<close>

lemma sendHandshake_unconnected:
  assumes "\<not> connected s" "\<not> connecting s"
  shows "\<exists>s1. sendHandshake s = Inr (Some (npromises s + 2), s1)
    \<and> connecting s1 \<and> \<not> connected s1 \<and> whenReady s1 = Some (npromises s + 2)
    \<and> hm s1 = hm s \<and> cb s1 = cb s \<and> handshakeTimeout s1 = handshakeTimeout s
    \<and> messageTimeout s1 = messageTimeout s \<and> handleMessage s1 = handleMessage s
    \<and> parent s1 = parent s \<and> userPromises s1 = userPromises s \<and> clock s1 = clock s
    \<and> globals s1 = globals s
    \<and> idGen s1 = snd (idGen_next (clock s) (idGen s))
    \<and> npromises s1 = npromises s + 3
    \<and> promises s1 =
        (promises s)(npromises s := (if parent s = None then Rejected (JError ''TypeError'') else Pending),
          npromises s + 1 := Pending, npromises s + 2 := Pending)
    \<and> reactions s1 =
        (reactions s)(npromises s :=
            (if parent s = None then [] else [Then (Some SetConnected) None (npromises s + 1)]),
          npromises s + 1 := [Then None (Some HandshakeFailed) (npromises s + 2)],
          npromises s + 2 := [])
    \<and> microtasks s1 =
        (if parent s = None
         then microtasks s @ [ReactionJob (Then (Some SetConnected) None (npromises s + 1))
                               (Rejected (JError ''TypeError''))]
         else microtasks s)
    \<and> emitter s1 = (emitter s)(next_id s := emitter s (next_id s) @
        [CallbackReceived (npromises s) (if 0 < handshakeTimeout s then Some (ntimers s) else None)])
    \<and> timers s1 =
        (if 0 < handshakeTimeout s
         then timers s @ [(ntimers s, clock s + handshakeTimeout s,
                           RejectTimeout (next_id s) (npromises s) (ntimers s))]
         else timers s)
    \<and> ntimers s1 = (if 0 < handshakeTimeout s then Suc (ntimers s) else ntimers s)
    \<and> sent s1 =
        (if parent s = None then sent s
         else sent s @ [request_payload (cb s) (next_id s) HANDSHAKE_ACTION (JStr (hm s))])"
  using assms
  by (cases "parent s = None")
     (simp_all add: sendHandshake_def split_def Let_def promise_then_queue next_id_def fun_upd_twist)

lemma example_channel_fields [simp]:
  "connecting example_channel = False"
  "connected example_channel = False"
  "whenReady example_channel = None"
  "hm example_channel = ''wkPostMessengerHandleMessage''"
  "cb example_channel = ''wkPostMessengerCallback''"
  "handshakeTimeout example_channel = 3000"
  "messageTimeout example_channel = 3000"
  "idGen example_channel = Timestamp timestampIdGenerator"
  "handleMessage example_channel = None"
  "parent example_channel = Some 0"
  "emitter example_channel = (\<lambda>ev. [])"
  "promises example_channel = (\<lambda>p. Pending)"
  "reactions example_channel = (\<lambda>p. [])"
  "npromises example_channel = 0"
  "userPromises example_channel = []"
  "timers example_channel = []"
  "ntimers example_channel = 0"
  "microtasks example_channel = []"
  "clock example_channel = 1000"
  "sent example_channel = []"
  by (simp_all add: example_channel_def example_window_def constructor_def default_options_def
      DEFAULT_TIMEOUT_def)

lemma digits_0 [simp]: "digits 0 = ''0''"
  by (simp add: digits.simps digit_char_def)

lemma numToString_1000 [simp]: "numToString 1000 = ''1000''"
  by (simp add: numToString_def digits.simps digit_char_def)

lemma next_id_example [simp]: "next_id example_channel = ''01000''"
  by (simp add: next_id_def idGen_next_def gen_next_def timestampIdGenerator_def)

section \<open>A handshake attempt, acknowledged or timed out\<close>

text \<open>
  An attempt in flight is the promise \<open>p\<close> of the handshake call, the promise \<open>q\<close> of
  its \<open>then\<close> and the promise \<open>r\<close> of its \<open>catch\<close>, all pending. When the remote
  side acknowledges, the two microtasks that follow set \<open>_connected\<close> and fulfil \<open>r\<close>.
\<close>

lemma attempt_succeeds:
  assumes a: "promises s p = Pending" "promises s q = Pending" "promises s r = Pending"
      "p \<noteq> q" "q \<noteq> r" "p \<noteq> r"
      "reactions s p = [Then (Some SetConnected) None q]"
      "reactions s q = [Then None (Some HandshakeFailed) r]"
      "emitter s ident = [CallbackReceived p ho]"
      "microtasks s = []"
    and s3_def: "s3 = run [InvokeCallback ident result, Microtask, Microtask] s"
  shows "connected s3" "connecting s3 = connecting s" "whenReady s3 = whenReady s"
    "promises s3 = (promises s)(p := Fulfilled result, q := Fulfilled JUndefined,
        r := Fulfilled JUndefined)"
    "reactions s3 = (reactions s)(p := [], q := [], r := [])"
    "microtasks s3 = map (\<lambda>x. ReactionJob x (Fulfilled JUndefined)) (reactions s r)"
    "timers s3 = (case ho of None \<Rightarrow> timers s | Some h \<Rightarrow> filter (\<lambda>t. fst t \<noteq> h) (timers s))"
    "sent s3 = sent s" "npromises s3 = npromises s" "ntimers s3 = ntimers s"
    "emitter s3 = emitter s" "idGen s3 = idGen s" "clock s3 = clock s" "parent s3 = parent s"
    "cb s3 = cb s" "hm s3 = hm s" "messageTimeout s3 = messageTimeout s"
    "handshakeTimeout s3 = handshakeTimeout s" "userPromises s3 = userPromises s"
    "handleMessage s3 = handleMessage s" "globals s3 = globals s"
proof -
  define s1 where "s1 = callbackGlobal_fn ident result s"
  have s1_eq: "s1 = settle p (Fulfilled result) (clearTimeout ho s)"
    by (simp add: s1_def callbackGlobal_fn_def emitter_trigger_def a)
  have s1: "microtasks s1 = [ReactionJob (Then (Some SetConnected) None q) (Fulfilled result)]"
    "promises s1 = (promises s)(p := Fulfilled result)"
    "reactions s1 = (reactions s)(p := [])"
    by (simp_all add: s1_eq a)
  define s2 where "s2 = microtask s1"
  have s2_eq: "s2 = settle q (Fulfilled JUndefined) (s1\<lparr>microtasks := [], connected := True\<rparr>)"
    by (simp add: s2_def microtask_Cons [OF s1(1)])
  have s2: "microtasks s2 = [ReactionJob (Then None (Some HandshakeFailed) r) (Fulfilled JUndefined)]"
    "promises s2 = (promises s)(p := Fulfilled result, q := Fulfilled JUndefined)"
    "reactions s2 = (reactions s)(p := [], q := [])"
    using a by (simp_all add: s2_eq s1)
  have s3_eq: "s3 = settle r (Fulfilled JUndefined) (s2\<lparr>microtasks := []\<rparr>)"
    by (simp add: s3_def run_def s1_def [symmetric] s2_def [symmetric] microtask_Cons [OF s2(1)])
  have pr: "promises (s2\<lparr>microtasks := []\<rparr>) r = Pending" using a by (simp add: s2)
  show "connected s3" "connecting s3 = connecting s" "whenReady s3 = whenReady s"
    "promises s3 = (promises s)(p := Fulfilled result, q := Fulfilled JUndefined,
        r := Fulfilled JUndefined)"
    "reactions s3 = (reactions s)(p := [], q := [], r := [])"
    "microtasks s3 = map (\<lambda>x. ReactionJob x (Fulfilled JUndefined)) (reactions s r)"
    "timers s3 = (case ho of None \<Rightarrow> timers s | Some h \<Rightarrow> filter (\<lambda>t. fst t \<noteq> h) (timers s))"
    "sent s3 = sent s" "npromises s3 = npromises s" "ntimers s3 = ntimers s"
    "emitter s3 = emitter s" "idGen s3 = idGen s" "clock s3 = clock s" "parent s3 = parent s"
    "cb s3 = cb s" "hm s3 = hm s" "messageTimeout s3 = messageTimeout s"
    "handshakeTimeout s3 = handshakeTimeout s" "userPromises s3 = userPromises s"
    "handleMessage s3 = handleMessage s" "globals s3 = globals s"
    using a pr by (simp_all add: s3_eq s2_eq s1_eq s2 s1)
qed

text \<open>
  When the timer of the handshake call comes due first, the four microtasks that follow
  reset \<open>_connecting\<close> and reject \<open>r\<close> with the handshake-timeout reason; the promise
  \<open>Promise.reject(...)\<close> creates is the next new one.
\<close>

lemma attempt_fails:
  assumes a: "promises s p = Pending" "promises s q = Pending" "promises s r = Pending"
      "p \<noteq> q" "q \<noteq> r" "p \<noteq> r" "p < npromises s" "q < npromises s" "r < npromises s"
      "reactions s p = [Then (Some SetConnected) None q]"
      "reactions s q = [Then None (Some HandshakeFailed) r]"
      "find (\<lambda>t. fst t = h) (timers s) = Some (h, due, RejectTimeout ident p h)"
      "due \<le> clock s"
      "microtasks s = []"
    and s5_def: "s5 = run [TimerFires h, Microtask, Microtask, Microtask, Microtask] s"
  shows "connected s5 = connected s" "\<not> connecting s5" "whenReady s5 = whenReady s"
    "promises s5 = (promises s)(p := Rejected MESSAGE_TIMEOUT_REASON,
        q := Rejected MESSAGE_TIMEOUT_REASON, r := Rejected HANDSHAKE_TIMEOUT_REASON,
        npromises s := Rejected HANDSHAKE_TIMEOUT_REASON)"
    "reactions s5 = (reactions s)(p := [], q := [], r := [], npromises s := [])"
    "microtasks s5 = map (\<lambda>x. ReactionJob x (Rejected HANDSHAKE_TIMEOUT_REASON)) (reactions s r)"
    "timers s5 = filter (\<lambda>t. fst t \<noteq> h) (timers s)"
    "sent s5 = sent s" "npromises s5 = Suc (npromises s)" "ntimers s5 = ntimers s"
    "emitter s5 = (emitter s)(ident := removeAll (CallbackReceived p (Some h)) (emitter s ident))"
    "idGen s5 = idGen s" "clock s5 = clock s" "parent s5 = parent s"
    "cb s5 = cb s" "hm s5 = hm s" "messageTimeout s5 = messageTimeout s"
    "handshakeTimeout s5 = handshakeTimeout s" "userPromises s5 = userPromises s"
    "handleMessage s5 = handleMessage s" "globals s5 = globals s"
proof -
  define n where "n = npromises s"
  define MT where "MT = Rejected MESSAGE_TIMEOUT_REASON"
  define HT where "HT = Rejected HANDSHAKE_TIMEOUT_REASON"
  have n: "p \<noteq> n" "q \<noteq> n" "r \<noteq> n" "n \<noteq> p" "n \<noteq> q" "n \<noteq> r" using a by (auto simp: n_def)
  define s1 where "s1 = fire_timer h s"
  have s1_eq: "s1 = settle p MT (emitter_off ident (CallbackReceived p (Some h))
      (s\<lparr>timers := filter (\<lambda>t. fst t \<noteq> h) (timers s)\<rparr>))"
    by (simp add: s1_def fire_timer_def a MT_def)
  have s1: "microtasks s1 = [ReactionJob (Then (Some SetConnected) None q) MT]"
    "promises s1 = (promises s)(p := MT)" "reactions s1 = (reactions s)(p := [])"
    "npromises s1 = n"
    by (simp_all add: s1_eq a n_def)
  define s2 where "s2 = microtask s1"
  have s2_eq: "s2 = settle q MT (s1\<lparr>microtasks := []\<rparr>)"
    by (simp add: s2_def microtask_Cons [OF s1(1)] MT_def)
  have s2: "microtasks s2 = [ReactionJob (Then None (Some HandshakeFailed) r) MT]"
    "promises s2 = (promises s)(p := MT, q := MT)" "reactions s2 = (reactions s)(p := [], q := [])"
    "npromises s2 = n"
    using a by (simp_all add: s2_eq s1)
  define s3 where "s3 = microtask s2"
  have s3_eq: "s3 = enqueue (ThenableJob r n)
      (snd (newPromise HT (s2\<lparr>microtasks := [], connecting := False\<rparr>)))"
    by (simp add: s3_def microtask_Cons [OF s2(1)] MT_def HT_def split_def Let_def s2)
  have s3: "microtasks s3 = [ThenableJob r n]"
    "promises s3 = (promises s)(p := MT, q := MT, n := HT)"
    "reactions s3 = (reactions s)(p := [], q := [], n := [])" "npromises s3 = Suc n"
    by (simp_all add: s3_eq s2)
  define s4 where "s4 = microtask s3"
  have s4_eq: "s4 = subscribe n (Forward r) (s3\<lparr>microtasks := []\<rparr>)"
    by (simp add: s4_def microtask_Cons [OF s3(1)])
  have s4: "microtasks s4 = [ReactionJob (Forward r) HT]"
    "promises s4 = (promises s)(p := MT, q := MT, n := HT)"
    "reactions s4 = (reactions s)(p := [], q := [], n := [])" "npromises s4 = Suc n"
    by (simp_all add: s4_eq s3 HT_def)
  have s5_eq: "s5 = settle r HT (s4\<lparr>microtasks := []\<rparr>)"
    by (simp add: s5_def run_def s1_def [symmetric] s2_def [symmetric] s3_def [symmetric]
        s4_def [symmetric] microtask_Cons [OF s4(1)])
  have pr: "promises (s4\<lparr>microtasks := []\<rparr>) r = Pending" using a n by (simp add: s4)
  have tw: "(promises s)(p := MT, q := MT, n := HT, r := HT) = (promises s)(p := MT, q := MT, r := HT, n := HT)"
    "(reactions s)(p := [], q := [], n := [], r := []) = (reactions s)(p := [], q := [], r := [], n := [])"
    using n by (auto simp: fun_upd_twist)
  show "connected s5 = connected s" "\<not> connecting s5" "whenReady s5 = whenReady s"
    "promises s5 = (promises s)(p := Rejected MESSAGE_TIMEOUT_REASON,
        q := Rejected MESSAGE_TIMEOUT_REASON, r := Rejected HANDSHAKE_TIMEOUT_REASON,
        npromises s := Rejected HANDSHAKE_TIMEOUT_REASON)"
    "reactions s5 = (reactions s)(p := [], q := [], r := [], npromises s := [])"
    "microtasks s5 = map (\<lambda>x. ReactionJob x (Rejected HANDSHAKE_TIMEOUT_REASON)) (reactions s r)"
    "timers s5 = filter (\<lambda>t. fst t \<noteq> h) (timers s)"
    "sent s5 = sent s" "npromises s5 = Suc (npromises s)" "ntimers s5 = ntimers s"
    "emitter s5 = (emitter s)(ident := removeAll (CallbackReceived p (Some h)) (emitter s ident))"
    "idGen s5 = idGen s" "clock s5 = clock s" "parent s5 = parent s"
    "cb s5 = cb s" "hm s5 = hm s" "messageTimeout s5 = messageTimeout s"
    "handshakeTimeout s5 = handshakeTimeout s" "userPromises s5 = userPromises s"
    "handleMessage s5 = handleMessage s" "globals s5 = globals s"
    using a pr n tw unfolding s5_eq s4_eq s3_eq s2_eq s1_eq MT_def HT_def n_def
    by simp_all
qed
section \<open>The connection flags\<close>

lemma call_callback_flags:
  "connected (snd (call_callback f v s)) = (connected s \<or> f = SetConnected)"
  "connecting (snd (call_callback f v s)) = (connecting s \<and> f \<noteq> HandshakeFailed)"
  by (cases f; cases "parent s"; simp add: split_def Let_def)+

lemma run_job_flags:
  "connected (run_job j s) = (connected s \<or> job_callback j = Some SetConnected)"
  "connecting (run_job j s) = (connecting s \<and> job_callback j \<noteq> Some HandshakeFailed)"
  by (cases "(j, s)" rule: run_job.cases;
      auto simp: split_def Let_def call_callback_flags split: option.splits)+

lemma microtask_flags:
  "connected (microtask s) =
     (connected s \<or> (microtasks s \<noteq> [] \<and> job_callback (hd (microtasks s)) = Some SetConnected))"
  "connecting (microtask s) =
     (connecting s \<and> \<not> (microtasks s \<noteq> [] \<and> job_callback (hd (microtasks s)) = Some HandshakeFailed))"
  by (cases "microtasks s"; simp add: microtask_Cons run_job_flags)+

lemma sendHandshake_flags:
  "sendHandshake s = Inr (w, s1) \<Longrightarrow> \<not> connected s1 \<and> connecting s1"
  using sendHandshake_unconnected [of s]
  by (cases "connected s"; cases "connecting s")
     (auto simp: sendHandshake_connected sendHandshake_connecting)

text \<open>The timeout a \<open>sendMessage\<close> call uses: the argument, or the default of the instance.\<close>

lemma sendMessage_ready:
  "whenReady s = Some w \<Longrightarrow>
     sendMessage action data timeoutArg s =
       Inr (npromises s,
            snd (promise_then w
              (Some (IssueMessage action data
                 (case timeoutArg of None \<Rightarrow> messageTimeout s | Some t \<Rightarrow> t))) None s))"
  by (simp add: sendMessage_def prod_eq_iff)

lemma sendMessage_first:
  assumes "whenReady s = None" "\<not> connected s" "\<not> connecting s"
  shows "\<exists>s1. sendHandshake s = Inr (Some (npromises s + 2), s1)
     \<and> sendMessage action data timeoutArg s =
         Inr (npromises s + 3,
              snd (promise_then (npromises s + 2)
                (Some (IssueMessage action data
                   (case timeoutArg of None \<Rightarrow> messageTimeout s | Some t \<Rightarrow> t))) None s1))"
proof -
  from sendHandshake_unconnected [OF assms(2,3)] obtain s1 where
    s1: "sendHandshake s = Inr (Some (npromises s + 2), s1)" "whenReady s1 = Some (npromises s + 2)"
      "npromises s1 = npromises s + 3" "messageTimeout s1 = messageTimeout s"
    by blast
  with assms(1) show ?thesis by (simp add: sendMessage_def prod_eq_iff)
qed

lemma sendMessage_throws:
  "whenReady s = None \<Longrightarrow> connected s \<or> connecting s \<Longrightarrow>
     \<exists>e. sendMessage action data timeoutArg s = Inl e"
  by (cases "connected s")
     (auto simp: sendMessage_def sendHandshake_connected sendHandshake_connecting)

lemma sendMessage_flags:
  assumes "sendMessage action data timeoutArg s = Inr (m, s1)"
  shows "connected s1 = connected s" "connecting s \<longrightarrow> connecting s1"
proof -
  have "connected s1 = connected s \<and> (connecting s \<longrightarrow> connecting s1)"
  proof (cases "whenReady s")
    case None
    with sendMessage_throws [of s action data timeoutArg] assms
    have u: "\<not> connected s" "\<not> connecting s" by auto
    from sendMessage_first [OF None u, of action data timeoutArg] assms
      sendHandshake_flags [of s] u
    show ?thesis by auto
  next
    case (Some w)
    with assms show ?thesis by (auto simp: sendMessage_ready)
  qed
  then show "connected s1 = connected s" "connecting s \<longrightarrow> connecting s1" by auto
qed

lemma handlerGlobal_fn_flags:
  assumes "handlerGlobal_fn ident action data s = Inr s1"
  shows "connected s1 = connected s" "connecting s1 = connecting s"
  using assms
  by (cases "parent s"; auto simp: handlerGlobal_fn_def split_def Let_def split: hresult.splits)+

lemma step_connected: "connected s \<Longrightarrow> connected (step ev s)"
proof (cases ev)
  case CallSendHandshake
  assume "connected s"
  with CallSendHandshake show ?thesis by (simp add: sendHandshake_connected)
next
  case (CallSendMessage action data timeoutArg)
  assume "connected s"
  with CallSendMessage sendMessage_flags(1) [of action data timeoutArg s] show ?thesis
    by (auto split: sum.splits)
next
  case (InvokeHandler ident action data)
  assume "connected s"
  with InvokeHandler handlerGlobal_fn_flags(1) [of ident action data s] show ?thesis
    by (auto split: sum.splits)
qed (auto simp: microtask_flags settle_same)

lemma run_connected: "connected s \<Longrightarrow> connected (run evs s)"
  unfolding run_def by (induction evs arbitrary: s) (simp_all add: step_connected)

lemma step_connecting_kept:
  assumes "connecting s" "\<not> connecting (step ev s)"
  shows "ev = Microtask \<and> microtasks s \<noteq> [] \<and> job_callback (hd (microtasks s)) = Some HandshakeFailed"
proof (cases ev)
  case CallSendHandshake
  with assms sendHandshake_flags [of s] show ?thesis by (auto split: sum.splits)
next
  case (CallSendMessage action data timeoutArg)
  with assms sendMessage_flags(2) [of action data timeoutArg s] show ?thesis
    by (auto split: sum.splits)
next
  case (InvokeHandler ident action data)
  with assms handlerGlobal_fn_flags(2) [of ident action data s] show ?thesis
    by (auto split: sum.splits)
next
  case Microtask
  with assms show ?thesis by (simp add: microtask_flags)
qed (use assms in \<open>auto split: if_splits\<close>)
text \<open>The attempt after its timer and one microtask: the \<open>catch\<close> function is next.\<close>

lemma attempt_fails_midway:
  assumes a: "promises s p = Pending" "promises s q = Pending"
      "p \<noteq> q"
      "reactions s p = [Then (Some SetConnected) None q]"
      "reactions s q = [Then None (Some HandshakeFailed) r]"
      "find (\<lambda>t. fst t = h) (timers s) = Some (h, due, RejectTimeout ident p h)"
      "due \<le> clock s"
      "microtasks s = []"
    and s2_def: "s2 = run [TimerFires h, Microtask] s"
  shows "connected s2 = connected s" "connecting s2 = connecting s"
    "microtasks s2 = [ReactionJob (Then None (Some HandshakeFailed) r)
                        (Rejected MESSAGE_TIMEOUT_REASON)]"
proof -
  define s1 where "s1 = fire_timer h s"
  have s1_eq: "s1 = settle p (Rejected MESSAGE_TIMEOUT_REASON)
      (emitter_off ident (CallbackReceived p (Some h))
        (s\<lparr>timers := filter (\<lambda>t. fst t \<noteq> h) (timers s)\<rparr>))"
    by (simp add: s1_def fire_timer_def a)
  have s1: "microtasks s1 = [ReactionJob (Then (Some SetConnected) None q)
                               (Rejected MESSAGE_TIMEOUT_REASON)]"
    by (simp add: s1_eq a)
  have s2_eq: "s2 = settle q (Rejected MESSAGE_TIMEOUT_REASON) (s1\<lparr>microtasks := []\<rparr>)"
    by (simp add: s2_def run_def s1_def [symmetric] microtask_Cons [OF s1])
  show "connected s2 = connected s" "connecting s2 = connecting s"
    "microtasks s2 = [ReactionJob (Then None (Some HandshakeFailed) r)
                        (Rejected MESSAGE_TIMEOUT_REASON)]"
    using a unfolding s2_eq s1_eq by simp_all
qed

lemma run_append: "run (evs @ evs') s = run evs' (run evs s)"
  by (simp add: run_def)

lemma run_Cons: "run (ev # evs) s = run evs (step ev s)"
  by (simp add: run_def)

lemma run_Nil [simp]: "run [] s = s"
  by (simp add: run_def)

text \<open>The example channel after \<open>sendHandshake()\<close>, and after the 3000 ms of its timeout.\<close>

lemma example_handshake_sent:
  defines "s1 \<equiv> run [CallSendHandshake] example_channel"
  shows "connecting s1" "\<not> connected s1" "whenReady s1 = Some 2" "npromises s1 = 3"
    "promises s1 = (\<lambda>p. Pending)"
    "reactions s1 = (\<lambda>p. [])(0 := [Then (Some SetConnected) None 1],
        1 := [Then None (Some HandshakeFailed) 2])"
    "microtasks s1 = []" "emitter s1 = (\<lambda>ev. [])(''01000'' := [CallbackReceived 0 (Some 0)])"
    "timers s1 = [(0, 4000, RejectTimeout ''01000'' 0 0)]" "ntimers s1 = 1" "clock s1 = 1000"
    "sent s1 = [request_payload ''wkPostMessengerCallback'' ''01000'' HANDSHAKE_ACTION
                 (JStr ''wkPostMessengerHandleMessage'')]"
    "parent s1 = Some 0" "cb s1 = ''wkPostMessengerCallback''" "messageTimeout s1 = 3000"
    "idGen s1 = snd (idGen_next 1000 (Timestamp timestampIdGenerator))"
    "handleMessage s1 = None" "userPromises s1 = []"
proof -
  from sendHandshake_unconnected [of example_channel] obtain s' where
    s': "sendHandshake example_channel = Inr (Some 2, s')" and
    f: "connecting s'" "\<not> connected s'" "whenReady s' = Some 2" "npromises s' = 3"
    "promises s' = (\<lambda>p. Pending)(0 := Pending, 1 := Pending, 2 := Pending)"
    "reactions s' = (\<lambda>p. [])(0 := [Then (Some SetConnected) None 1],
        1 := [Then None (Some HandshakeFailed) 2], 2 := [])"
    "microtasks s' = []" "emitter s' = (\<lambda>ev. [])(''01000'' := [CallbackReceived 0 (Some 0)])"
    "timers s' = [(0, 4000, RejectTimeout ''01000'' 0 0)]" "ntimers s' = 1" "clock s' = 1000"
    "sent s' = [request_payload ''wkPostMessengerCallback'' ''01000'' HANDSHAKE_ACTION
                 (JStr ''wkPostMessengerHandleMessage'')]"
    "parent s' = Some 0" "cb s' = ''wkPostMessengerCallback''" "messageTimeout s' = 3000"
    "idGen s' = snd (idGen_next 1000 (Timestamp timestampIdGenerator))"
    "handleMessage s' = None" "userPromises s' = []"
    by (auto simp: numeral_2_eq_2 numeral_3_eq_3)
  have eq: "s1 = s'" by (simp add: s1_def run_def s')
  have p: "(\<lambda>p. Pending)(0 := Pending, 1 := Pending, 2 := Pending) = (\<lambda>p::nat. Pending)"
    and r: "(\<lambda>p. [])(0 := [Then (Some SetConnected) None 1],
        1 := [Then None (Some HandshakeFailed) 2], 2 := []) =
      (\<lambda>p::nat. [])(0 := [Then (Some SetConnected) None 1],
        1 := [Then None (Some HandshakeFailed) 2])"
    by auto
  show "connecting s1" "\<not> connected s1" "whenReady s1 = Some 2" "npromises s1 = 3"
    "promises s1 = (\<lambda>p. Pending)"
    "reactions s1 = (\<lambda>p. [])(0 := [Then (Some SetConnected) None 1],
        1 := [Then None (Some HandshakeFailed) 2])"
    "microtasks s1 = []" "emitter s1 = (\<lambda>ev. [])(''01000'' := [CallbackReceived 0 (Some 0)])"
    "timers s1 = [(0, 4000, RejectTimeout ''01000'' 0 0)]" "ntimers s1 = 1" "clock s1 = 1000"
    "sent s1 = [request_payload ''wkPostMessengerCallback'' ''01000'' HANDSHAKE_ACTION
                 (JStr ''wkPostMessengerHandleMessage'')]"
    "parent s1 = Some 0" "cb s1 = ''wkPostMessengerCallback''" "messageTimeout s1 = 3000"
    "idGen s1 = snd (idGen_next 1000 (Timestamp timestampIdGenerator))"
    "handleMessage s1 = None" "userPromises s1 = []"
    unfolding eq using f p r by simp_all
qed

section \<open>A channel whose transport target is undefined\<close>

lemma unlocated_channel_fields [simp]:
  "connecting unlocated_channel = False"
  "connected unlocated_channel = False"
  "whenReady unlocated_channel = None"
  "hm unlocated_channel = ''wkPostMessengerHandleMessage''"
  "cb unlocated_channel = ''wkPostMessengerCallback''"
  "handshakeTimeout unlocated_channel = 3000"
  "messageTimeout unlocated_channel = 3000"
  "idGen unlocated_channel = Timestamp timestampIdGenerator"
  "handleMessage unlocated_channel = None"
  "parent unlocated_channel = None"
  "emitter unlocated_channel = (\<lambda>ev. [])"
  "promises unlocated_channel = (\<lambda>p. Pending)"
  "reactions unlocated_channel = (\<lambda>p. [])"
  "npromises unlocated_channel = 0"
  "userPromises unlocated_channel = []"
  "timers unlocated_channel = []"
  "ntimers unlocated_channel = 0"
  "microtasks unlocated_channel = []"
  "clock unlocated_channel = 1000"
  "sent unlocated_channel = []"
  by (simp_all add: unlocated_channel_def unlocated_window_def constructor_def default_options_def
      DEFAULT_TIMEOUT_def)

lemma next_id_unlocated [simp]: "next_id unlocated_channel = ''01000''"
  by (simp add: next_id_def idGen_next_def gen_next_def timestampIdGenerator_def)

lemma unlocated_constructed:
  "isl (constructor (default_options\<lparr>autoHandshake := False\<rparr>) unlocated_window 1000) = False"
  by (simp add: unlocated_window_def constructor_def default_options_def)

text \<open>With \<open>parent\<close> undefined every \<open>postMessage\<close> throws: no event sends an envelope,
  and \<open>parent\<close> stays undefined.\<close>

lemma unlocated_step:
  assumes p: "parent s = None"
  shows "sent (step ev s) = sent s \<and> parent (step ev s) = None"
proof (cases ev)
  case CallSendHandshake
  with sendHandshake_unconnected [of s] p show ?thesis
    by (cases "connected s"; cases "connecting s")
       (auto simp: sendHandshake_connected sendHandshake_connecting)
next
  case (CallSendMessage action data timeoutArg)
  show ?thesis
  proof (cases "whenReady s")
    case (Some w)
    with CallSendMessage p show ?thesis by (simp add: sendMessage_ready)
  next
    case None
    show ?thesis
    proof (cases "connected s \<or> connecting s")
      case True
      with sendMessage_throws [OF None, of action data timeoutArg] CallSendMessage p
      show ?thesis by auto
    next
      case False
      with sendMessage_first [OF None, of action data timeoutArg]
        sendHandshake_unconnected [of s] CallSendMessage p
      show ?thesis by auto
    qed
  qed
next
  case (InvokeHandler ident action data)
  with p show ?thesis
    by (cases "priv_handleMessage action data s")
       (auto simp: handlerGlobal_fn_def split_def Let_def)
next
  case Microtask
  show ?thesis
  proof (cases "microtasks s")
    case Nil
    with Microtask p show ?thesis by simp
  next
    case (Cons j js)
    have cb: "sent (snd (call_callback f v s0)) = sent s0 \<and> parent (snd (call_callback f v s0)) = None"
      if "parent s0 = None" for f v s0
      using that by (cases f) (simp_all add: split_def Let_def)
    have "sent (run_job j s0) = sent s0 \<and> parent (run_job j s0) = None"
      if "parent s0 = None" for s0
      using cb [of s0] that
      by (cases "(j, s0)" rule: run_job.cases)
         (auto simp: split_def Let_def split: option.splits)
    from this [of "s\<lparr>microtasks := js\<rparr>"] Microtask p show ?thesis
      by (simp add: microtask_Cons [OF Cons])
  qed
qed (simp_all add: p)

lemma unlocated_run:
  "parent s = None \<Longrightarrow> sent (run evs s) = sent s \<and> parent (run evs s) = None"
  unfolding run_def
proof (induction evs arbitrary: s)
  case Nil
  then show ?case by simp
next
  case (Cons ev evs)
  from unlocated_step [OF Cons.prems, of ev] Cons.IH [of "step ev s"] show ?case by simp
qed

text \<open>
  A handshake attempt whose \<open>postMessage\<close> threw: the promise \<open>p\<close> of the call was
  rejected in its executor and the job of its \<open>then\<close> is queued. Four microtasks later the
  \<open>catch\<close> function has run and \<open>r\<close> is rejected with the handshake-timeout reason.
\<close>

lemma attempt_throws:
  assumes a: "promises s q = Pending" "promises s r = Pending"
      "q \<noteq> r" "q < npromises s" "r < npromises s"
      "reactions s q = [Then None (Some HandshakeFailed) r]"
      "microtasks s = [ReactionJob (Then (Some SetConnected) None q) (Rejected e)]"
    and s5_def: "s5 = run [Microtask, Microtask, Microtask, Microtask] s"
  shows "connected s5 = connected s" "\<not> connecting s5" "whenReady s5 = whenReady s"
    "promises s5 = (promises s)(q := Rejected e, r := Rejected HANDSHAKE_TIMEOUT_REASON,
        npromises s := Rejected HANDSHAKE_TIMEOUT_REASON)"
    "microtasks s5 = map (\<lambda>x. ReactionJob x (Rejected HANDSHAKE_TIMEOUT_REASON)) (reactions s r)"
    "sent s5 = sent s" "npromises s5 = Suc (npromises s)"
    "timers s5 = timers s" "emitter s5 = emitter s" "parent s5 = parent s"
    "reactions s5 = (reactions s)(q := [], r := [], npromises s := [])"
proof -
  define n where "n = npromises s"
  define MT where "MT = Rejected e"
  define HT where "HT = Rejected HANDSHAKE_TIMEOUT_REASON"
  have n: "q \<noteq> n" "r \<noteq> n" "n \<noteq> q" "n \<noteq> r" using a by (auto simp: n_def)
  define s2 where "s2 = microtask s"
  have s2_eq: "s2 = settle q MT (s\<lparr>microtasks := []\<rparr>)"
    by (simp add: s2_def microtask_Cons [OF a(7)] MT_def)
  have s2: "microtasks s2 = [ReactionJob (Then None (Some HandshakeFailed) r) MT]"
    "promises s2 = (promises s)(q := MT)" "reactions s2 = (reactions s)(q := [])"
    "npromises s2 = n"
    using a by (simp_all add: s2_eq n_def)
  define s3 where "s3 = microtask s2"
  have s3_eq: "s3 = enqueue (ThenableJob r n)
      (snd (newPromise HT (s2\<lparr>microtasks := [], connecting := False\<rparr>)))"
    by (simp add: s3_def microtask_Cons [OF s2(1)] MT_def HT_def split_def Let_def s2)
  have s3: "microtasks s3 = [ThenableJob r n]"
    "promises s3 = (promises s)(q := MT, n := HT)"
    "reactions s3 = (reactions s)(q := [], n := [])" "npromises s3 = Suc n"
    by (simp_all add: s3_eq s2)
  define s4 where "s4 = microtask s3"
  have s4_eq: "s4 = subscribe n (Forward r) (s3\<lparr>microtasks := []\<rparr>)"
    by (simp add: s4_def microtask_Cons [OF s3(1)])
  have s4: "microtasks s4 = [ReactionJob (Forward r) HT]"
    "promises s4 = (promises s)(q := MT, n := HT)"
    "reactions s4 = (reactions s)(q := [], n := [])" "npromises s4 = Suc n"
    by (simp_all add: s4_eq s3 HT_def)
  have s5_eq: "s5 = settle r HT (s4\<lparr>microtasks := []\<rparr>)"
    by (simp add: s5_def run_def s2_def [symmetric] s3_def [symmetric]
        s4_def [symmetric] microtask_Cons [OF s4(1)])
  have pr: "promises (s4\<lparr>microtasks := []\<rparr>) r = Pending" using a n by (simp add: s4)
  have tw: "(promises s)(q := MT, n := HT, r := HT) = (promises s)(q := MT, r := HT, n := HT)"
    "(reactions s)(q := [], n := [], r := []) = (reactions s)(q := [], r := [], n := [])"
    using n by (auto simp: fun_upd_twist)
  show "connected s5 = connected s" "\<not> connecting s5" "whenReady s5 = whenReady s"
    "promises s5 = (promises s)(q := Rejected e, r := Rejected HANDSHAKE_TIMEOUT_REASON,
        npromises s := Rejected HANDSHAKE_TIMEOUT_REASON)"
    "microtasks s5 = map (\<lambda>x. ReactionJob x (Rejected HANDSHAKE_TIMEOUT_REASON)) (reactions s r)"
    "sent s5 = sent s" "npromises s5 = Suc (npromises s)"
    "timers s5 = timers s" "emitter s5 = emitter s" "parent s5 = parent s"
    "reactions s5 = (reactions s)(q := [], r := [], npromises s := [])"
    using a pr n tw unfolding s5_eq s4_eq s3_eq s2_eq MT_def HT_def n_def
    by simp_all
qed

text \<open>\<open>sendHandshake()\<close> on the channel without a transport target, and the four
  microtasks that follow.\<close>

lemma unlocated_handshake_called:
  defines "s1 \<equiv> run [CallSendHandshake] unlocated_channel"
  shows "sendHandshake unlocated_channel = Inr (Some 2, s1)"
    "connecting s1" "\<not> connected s1" "whenReady s1 = Some 2" "npromises s1 = 3"
    "promises s1 = (\<lambda>p. Pending)(0 := Rejected (JError ''TypeError''))"
    "reactions s1 = (\<lambda>p. [])(1 := [Then None (Some HandshakeFailed) 2])"
    "microtasks s1 = [ReactionJob (Then (Some SetConnected) None 1)
                        (Rejected (JError ''TypeError''))]"
    "timers s1 = [(0, 4000, RejectTimeout ''01000'' 0 0)]"
    "emitter s1 = (\<lambda>ev. [])(''01000'' := [CallbackReceived 0 (Some 0)])"
    "sent s1 = []" "parent s1 = None" "clock s1 = 1000" "messageTimeout s1 = 3000"
proof -
  from sendHandshake_unconnected [of unlocated_channel] obtain s' where
    s': "sendHandshake unlocated_channel = Inr (Some 2, s')"
      "connecting s'" "\<not> connected s'" "whenReady s' = Some 2" "npromises s' = 3"
      "promises s' = (\<lambda>p. Pending)(0 := Rejected (JError ''TypeError''))"
      "reactions s' = (\<lambda>p. [])(1 := [Then None (Some HandshakeFailed) 2])"
      "microtasks s' = [ReactionJob (Then (Some SetConnected) None 1)
                        (Rejected (JError ''TypeError''))]"
      "timers s' = [(0, 4000, RejectTimeout ''01000'' 0 0)]"
      "emitter s' = (\<lambda>ev. [])(''01000'' := [CallbackReceived 0 (Some 0)])"
      "sent s' = []" "parent s' = None" "clock s' = 1000" "messageTimeout s' = 3000"
    by (auto simp: numeral_2_eq_2 numeral_3_eq_3 fun_upd_idem)
  have "s1 = s'" by (simp add: s1_def run_def s')
  with s' show "sendHandshake unlocated_channel = Inr (Some 2, s1)"
    "connecting s1" "\<not> connected s1" "whenReady s1 = Some 2" "npromises s1 = 3"
    "promises s1 = (\<lambda>p. Pending)(0 := Rejected (JError ''TypeError''))"
    "reactions s1 = (\<lambda>p. [])(1 := [Then None (Some HandshakeFailed) 2])"
    "microtasks s1 = [ReactionJob (Then (Some SetConnected) None 1)
                        (Rejected (JError ''TypeError''))]"
    "timers s1 = [(0, 4000, RejectTimeout ''01000'' 0 0)]"
    "emitter s1 = (\<lambda>ev. [])(''01000'' := [CallbackReceived 0 (Some 0)])"
    "sent s1 = []" "parent s1 = None" "clock s1 = 1000" "messageTimeout s1 = 3000"
    by simp_all
qed
section \<open>Consistency is kept by every operation\<close>

subsection \<open>Reading and establishing the parts of consistency\<close>

lemma consistentD:
  assumes "consistent s"
  shows "parent s \<noteq> None" "timers_ok s" "listeners_ok s" "linked s" "refs_ok s"
  using assms unfolding consistent_def by blast+

lemma timers_ok_distinct: "timers_ok s \<Longrightarrow> distinct (map fst (timers s))"
  unfolding timers_ok_def by blast

lemma timers_okD:
  assumes "timers_ok s" "t \<in> set (timers s)"
  shows "timer_own t = fst t" "fst t < ntimers s" "timer_promise t < npromises s"
    "promises s (timer_promise t) = Pending"
  using assms unfolding timers_ok_def by blast+

lemma timers_ok_uniq:
  "timers_ok s \<Longrightarrow> t \<in> set (timers s) \<Longrightarrow> t' \<in> set (timers s) \<Longrightarrow>
     timer_promise t = timer_promise t' \<Longrightarrow> fst t = fst t'"
  unfolding timers_ok_def by blast

lemma timers_okI:
  assumes "distinct (map fst (timers s))"
    "\<And>t. t \<in> set (timers s) \<Longrightarrow>
       timer_own t = fst t \<and> fst t < ntimers s \<and> timer_promise t < npromises s
       \<and> promises s (timer_promise t) = Pending"
    "\<And>t t'. t \<in> set (timers s) \<Longrightarrow> t' \<in> set (timers s) \<Longrightarrow>
       timer_promise t = timer_promise t' \<Longrightarrow> fst t = fst t'"
  shows "timers_ok s"
  using assms unfolding timers_ok_def by blast

lemma listeners_okD:
  assumes "listeners_ok s" "l \<in> set (emitter s ev)"
  shows "listener_promise l < npromises s" "promises s (listener_promise l) \<noteq> Rejected e"
    "listener_handle l = Some h \<Longrightarrow> h < ntimers s"
  using assms unfolding listeners_ok_def by blast+

lemma listeners_okI:
  assumes "\<And>ev l. l \<in> set (emitter s ev) \<Longrightarrow>
       listener_promise l < npromises s
       \<and> (\<forall>e. promises s (listener_promise l) \<noteq> Rejected e)
       \<and> (\<forall>h. listener_handle l = Some h \<longrightarrow> h < ntimers s)"
  shows "listeners_ok s"
  using assms unfolding listeners_ok_def by blast

lemma linkedD:
  assumes "linked s" "t \<in> set (timers s)" "l \<in> set (emitter s ev)"
  shows "listener_promise l = timer_promise t \<Longrightarrow> listener_handle l = Some (fst t)"
    "listener_promise l = timer_promise t \<Longrightarrow> ev = timer_ident t"
    "listener_handle l = Some (fst t) \<Longrightarrow> listener_promise l = timer_promise t"
  using assms unfolding linked_def by blast+

lemma linkedI:
  assumes "\<And>t ev l. t \<in> set (timers s) \<Longrightarrow> l \<in> set (emitter s ev) \<Longrightarrow>
       (listener_promise l = timer_promise t \<longrightarrow>
          listener_handle l = Some (fst t) \<and> ev = timer_ident t)
       \<and> (listener_handle l = Some (fst t) \<longrightarrow> listener_promise l = timer_promise t)"
  shows "linked s"
  using assms unfolding linked_def by blast

lemma refs_okD:
  assumes "refs_ok s"
  shows "r \<in> set (reactions s x) \<Longrightarrow> free_promise s (reaction_target r)"
    "j \<in> set (microtasks s) \<Longrightarrow> free_promise s (job_target j)"
    "u \<in> set (userPromises s) \<Longrightarrow> free_promise s u"
  using assms unfolding refs_ok_def by blast+

lemma refs_okI:
  assumes "\<And>x r. r \<in> set (reactions s x) \<Longrightarrow> free_promise s (reaction_target r)"
    "\<And>j. j \<in> set (microtasks s) \<Longrightarrow> free_promise s (job_target j)"
    "\<And>u. u \<in> set (userPromises s) \<Longrightarrow> free_promise s u"
  shows "refs_ok s"
  using assms unfolding refs_ok_def by blast

lemma free_promiseD:
  assumes "free_promise s x"
  shows "x < npromises s" "t \<in> set (timers s) \<Longrightarrow> timer_promise t \<noteq> x"
    "l \<in> set (emitter s ev) \<Longrightarrow> listener_promise l \<noteq> x"
  using assms unfolding free_promise_def call_promise_def by blast+

lemma free_promiseI:
  assumes "x < npromises s" "\<And>t. t \<in> set (timers s) \<Longrightarrow> timer_promise t \<noteq> x"
    "\<And>ev l. l \<in> set (emitter s ev) \<Longrightarrow> listener_promise l \<noteq> x"
  shows "free_promise s x"
  using assms unfolding free_promise_def call_promise_def by blast

text \<open>A free promise stays free while no new timer or waiter refers to it.\<close>

lemma free_promise_mono:
  assumes f: "free_promise s x" and n: "npromises s \<le> npromises s'"
    and t: "\<And>t. t \<in> set (timers s') \<Longrightarrow> t \<in> set (timers s) \<or> timer_promise t \<noteq> x"
    and l: "\<And>ev l. l \<in> set (emitter s' ev) \<Longrightarrow> l \<in> set (emitter s ev) \<or> listener_promise l \<noteq> x"
  shows "free_promise s' x"
proof (rule free_promiseI)
  from free_promiseD(1) [OF f] n show "x < npromises s'" by simp
next
  fix t assume "t \<in> set (timers s')"
  with t free_promiseD(2) [OF f] show "timer_promise t \<noteq> x" by blast
next
  fix ev l assume "l \<in> set (emitter s' ev)"
  with l free_promiseD(3) [OF f] show "listener_promise l \<noteq> x" by blast
qed

text \<open>The promise just created is free where every timer and waiter refers to older ones.\<close>

lemma fresh_promise_free:
  assumes "timers_ok s" "listeners_ok s" "npromises s' = Suc (npromises s)"
    "timers s' = timers s" "emitter s' = emitter s"
  shows "free_promise s' (npromises s)"
proof (rule free_promiseI)
  show "npromises s < npromises s'" using assms(3) by simp
next
  fix t assume "t \<in> set (timers s')"
  with assms(4) timers_okD(3) [OF assms(1)] show "timer_promise t \<noteq> npromises s"
    by (metis less_irrefl)
next
  fix ev l assume "l \<in> set (emitter s' ev)"
  with assms(5) listeners_okD(1) [OF assms(2)] show "listener_promise l \<noteq> npromises s"
    by (metis less_irrefl)
qed

subsection \<open>Operations that add no timer and no waiter\<close>

text \<open>
  A change of the channel that adds no timer and no waiter keeps it consistent, if the
  promises of the timers left are pending, those of the waiters left are not rejected, and
  whatever is newly registered, queued or handed to the user settles a free promise.
\<close>

lemma consistent_shrink:
  assumes c: "consistent s"
    and par: "parent s' = parent s"
    and tm: "set (timers s') \<subseteq> set (timers s)" "distinct (map fst (timers s'))"
    and em: "\<And>ev. set (emitter s' ev) \<subseteq> set (emitter s ev)"
    and np: "npromises s \<le> npromises s'" and nt: "ntimers s \<le> ntimers s'"
    and tp: "\<And>t. t \<in> set (timers s') \<Longrightarrow> promises s' (timer_promise t) = Pending"
    and lp: "\<And>ev l e. l \<in> set (emitter s' ev) \<Longrightarrow> promises s' (listener_promise l) \<noteq> Rejected e"
    and re: "\<And>x r. r \<in> set (reactions s' x) \<Longrightarrow>
               (\<exists>y. r \<in> set (reactions s y)) \<or> free_promise s' (reaction_target r)"
    and mi: "\<And>j. j \<in> set (microtasks s') \<Longrightarrow>
               j \<in> set (microtasks s) \<or> (\<exists>r outcome y. j = ReactionJob r outcome \<and> r \<in> set (reactions s y))
               \<or> free_promise s' (job_target j)"
    and us: "\<And>u. u \<in> set (userPromises s') \<Longrightarrow> u \<in> set (userPromises s) \<or> free_promise s' u"
  shows "consistent s'"
proof -
  note cs = consistentD [OF c]
  have free: "free_promise s' y" if "free_promise s y" for y
  proof (rule free_promise_mono [OF that np])
    fix t assume "t \<in> set (timers s')"
    with tm(1) show "t \<in> set (timers s) \<or> timer_promise t \<noteq> y" by blast
  next
    fix ev l assume "l \<in> set (emitter s' ev)"
    with em show "l \<in> set (emitter s ev) \<or> listener_promise l \<noteq> y" by blast
  qed
  have "timers_ok s'"
  proof (rule timers_okI)
    show "distinct (map fst (timers s'))" by (rule tm(2))
  next
    fix t assume t: "t \<in> set (timers s')"
    with tm(1) have "t \<in> set (timers s)" by blast
    from timers_okD [OF cs(2) this] tp [OF t] np nt
    show "timer_own t = fst t \<and> fst t < ntimers s' \<and> timer_promise t < npromises s'
       \<and> promises s' (timer_promise t) = Pending"
      by simp
  next
    fix t t' assume "t \<in> set (timers s')" "t' \<in> set (timers s')"
      "timer_promise t = timer_promise t'"
    with tm(1) timers_ok_uniq [OF cs(2)] show "fst t = fst t'" by blast
  qed
  moreover have "listeners_ok s'"
  proof (rule listeners_okI)
    fix ev l assume l: "l \<in> set (emitter s' ev)"
    with em have "l \<in> set (emitter s ev)" by blast
    from listeners_okD(1,3) [OF cs(3) this] lp [OF l] np nt
    show "listener_promise l < npromises s'
       \<and> (\<forall>e. promises s' (listener_promise l) \<noteq> Rejected e)
       \<and> (\<forall>h. listener_handle l = Some h \<longrightarrow> h < ntimers s')"
      by (meson less_le_trans)
  qed
  moreover have "linked s'"
  proof (rule linkedI)
    fix t ev l assume "t \<in> set (timers s')" "l \<in> set (emitter s' ev)"
    with tm(1) em have "t \<in> set (timers s)" "l \<in> set (emitter s ev)" by blast+
    from linkedD [OF cs(4) this]
    show "(listener_promise l = timer_promise t \<longrightarrow>
          listener_handle l = Some (fst t) \<and> ev = timer_ident t)
       \<and> (listener_handle l = Some (fst t) \<longrightarrow> listener_promise l = timer_promise t)"
      by blast
  qed
  moreover have "refs_ok s'"
  proof (rule refs_okI)
    fix x r assume "r \<in> set (reactions s' x)"
    from re [OF this] refs_okD(1) [OF cs(5)] free
    show "free_promise s' (reaction_target r)" by blast
  next
    fix j assume "j \<in> set (microtasks s')"
    from mi [OF this] refs_okD(1,2) [OF cs(5)] free
    show "free_promise s' (job_target j)" by fastforce
  next
    fix u assume "u \<in> set (userPromises s')"
    from us [OF this] refs_okD(3) [OF cs(5)] free show "free_promise s' u" by blast
  qed
  ultimately show ?thesis using cs(1) par unfolding consistent_def by simp
qed

lemma consistent_fields:
  "\<lbrakk>parent s' = parent s; timers s' = timers s; ntimers s' = ntimers s;
    npromises s' = npromises s; promises s' = promises s; emitter s' = emitter s;
    reactions s' = reactions s; microtasks s' = microtasks s; userPromises s' = userPromises s\<rbrakk>
   \<Longrightarrow> consistent s' = consistent s"
  unfolding consistent_def timers_ok_def listeners_ok_def linked_def refs_ok_def
    free_promise_def call_promise_def
  by simp

lemma free_promise_fields:
  "\<lbrakk>timers s' = timers s; npromises s' = npromises s; emitter s' = emitter s\<rbrakk>
   \<Longrightarrow> free_promise s' x = free_promise s x"
  unfolding free_promise_def call_promise_def by simp

lemma free_promise_subscribe [simp]: "free_promise (subscribe x r s) y = free_promise s y"
  by (rule free_promise_fields) simp_all

lemma free_promise_enqueue [simp]: "free_promise (enqueue j s) y = free_promise s y"
  by (rule free_promise_fields) simp_all

lemma free_promise_settle [simp]: "free_promise (settle x outcome s) y = free_promise s y"
  by (rule free_promise_fields) simp_all

lemma free_promise_resolve_with [simp]: "free_promise (resolve_with q r s) y = free_promise s y"
  by (rule free_promise_fields) simp_all

lemma free_promise_newPromise:
  assumes "free_promise s x"
  shows "free_promise (snd (newPromise st s)) x"
  by (rule free_promise_mono [OF assms]) simp_all

lemma consistent_newPromise:
  assumes c: "consistent s"
  shows "consistent (snd (newPromise st s))"
proof (rule consistent_shrink [OF c])
  note cs = consistentD [OF c]
  let ?s = "snd (newPromise st s)"
  fix t assume "t \<in> set (timers ?s)"
  then have "t \<in> set (timers s)" by simp
  from timers_okD(3,4) [OF cs(2) this] show "promises ?s (timer_promise t) = Pending" by simp
next
  note cs = consistentD [OF c]
  let ?s = "snd (newPromise st s)"
  fix ev l e assume "l \<in> set (emitter ?s ev)"
  then have "l \<in> set (emitter s ev)" by simp
  from listeners_okD(1) [OF cs(3) this] listeners_okD(2) [OF cs(3) this, of e]
  show "promises ?s (listener_promise l) \<noteq> Rejected e" by simp
next
  fix x r assume "r \<in> set (reactions (snd (newPromise st s)) x)"
  then show "(\<exists>y. r \<in> set (reactions s y))
      \<or> free_promise (snd (newPromise st s)) (reaction_target r)"
    by (auto split: if_splits)
qed (simp_all add: timers_ok_distinct [OF consistentD(2) [OF c]])

lemma consistent_enqueue:
  assumes c: "consistent s" and f: "free_promise s (job_target j)"
  shows "consistent (enqueue j s)"
proof (rule consistent_shrink [OF c])
  note cs = consistentD [OF c]
  fix t assume "t \<in> set (timers (enqueue j s))"
  then have "t \<in> set (timers s)" by simp
  from timers_okD(4) [OF cs(2) this] show "promises (enqueue j s) (timer_promise t) = Pending"
    by simp
next
  note cs = consistentD [OF c]
  fix ev l e assume "l \<in> set (emitter (enqueue j s) ev)"
  then have "l \<in> set (emitter s ev)" by simp
  from listeners_okD(2) [OF cs(3) this, of e]
  show "promises (enqueue j s) (listener_promise l) \<noteq> Rejected e" by simp
next
  fix j' assume "j' \<in> set (microtasks (enqueue j s))"
  with f show "j' \<in> set (microtasks s)
      \<or> (\<exists>r outcome y. j' = ReactionJob r outcome \<and> r \<in> set (reactions s y))
      \<or> free_promise (enqueue j s) (job_target j')"
    by auto
qed (auto simp: timers_ok_distinct [OF consistentD(2) [OF c]])

lemma consistent_subscribe:
  assumes c: "consistent s" and f: "free_promise s (reaction_target r)"
  shows "consistent (subscribe x r s)"
proof (rule consistent_shrink [OF c])
  note cs = consistentD [OF c]
  fix t assume "t \<in> set (timers (subscribe x r s))"
  then have "t \<in> set (timers s)" by simp
  from timers_okD(4) [OF cs(2) this]
  show "promises (subscribe x r s) (timer_promise t) = Pending" by simp
next
  note cs = consistentD [OF c]
  fix ev l e assume "l \<in> set (emitter (subscribe x r s) ev)"
  then have "l \<in> set (emitter s ev)" by simp
  from listeners_okD(2) [OF cs(3) this, of e]
  show "promises (subscribe x r s) (listener_promise l) \<noteq> Rejected e" by simp
next
  fix y r' assume "r' \<in> set (reactions (subscribe x r s) y)"
  with f show "(\<exists>y. r' \<in> set (reactions s y))
      \<or> free_promise (subscribe x r s) (reaction_target r')"
    by (auto simp: subscribe_changed split: if_splits)
next
  fix j assume "j \<in> set (microtasks (subscribe x r s))"
  with f show "j \<in> set (microtasks s)
      \<or> (\<exists>r outcome y. j = ReactionJob r outcome \<and> r \<in> set (reactions s y))
      \<or> free_promise (subscribe x r s) (job_target j)"
    by (auto simp: subscribe_changed split: if_splits)
qed (auto simp: timers_ok_distinct [OF consistentD(2) [OF c]])

text \<open>Settling a promise keeps the channel consistent when no armed timer belongs to it
  and, for a rejection, no waiter is registered for it.\<close>

lemma consistent_settle:
  assumes c: "consistent s"
    and t: "\<And>t. t \<in> set (timers s) \<Longrightarrow> timer_promise t \<noteq> x"
    and l: "\<And>e ev l. outcome = Rejected e \<Longrightarrow> l \<in> set (emitter s ev) \<Longrightarrow> listener_promise l \<noteq> x"
  shows "consistent (settle x outcome s)"
proof (rule consistent_shrink [OF c])
  note cs = consistentD [OF c]
  fix t' assume "t' \<in> set (timers (settle x outcome s))"
  then have m: "t' \<in> set (timers s)" by simp
  from timers_okD(4) [OF cs(2) m] t [OF m]
  show "promises (settle x outcome s) (timer_promise t') = Pending"
    by (simp add: settle_changed)
next
  note cs = consistentD [OF c]
  fix ev l' e assume "l' \<in> set (emitter (settle x outcome s) ev)"
  then have m: "l' \<in> set (emitter s ev)" by simp
  show "promises (settle x outcome s) (listener_promise l') \<noteq> Rejected e"
  proof (cases "outcome = Rejected e")
    case True
    from l [OF True m] listeners_okD(2) [OF cs(3) m, of e] show ?thesis
      by (simp add: settle_changed)
  next
    case False
    with listeners_okD(2) [OF cs(3) m, of e] show ?thesis by (simp add: settle_changed)
  qed
next
  fix y r assume "r \<in> set (reactions (settle x outcome s) y)"
  then show "(\<exists>y. r \<in> set (reactions s y))
      \<or> free_promise (settle x outcome s) (reaction_target r)"
    by (auto simp: settle_changed split: if_splits)
next
  fix j assume "j \<in> set (microtasks (settle x outcome s))"
  then show "j \<in> set (microtasks s)
      \<or> (\<exists>r outcome y. j = ReactionJob r outcome \<and> r \<in> set (reactions s y))
      \<or> free_promise (settle x outcome s) (job_target j)"
    by (auto simp: settle_changed split: if_splits)
qed (auto simp: timers_ok_distinct [OF consistentD(2) [OF c]])

lemma consistent_settle_free:
  assumes "consistent s" "free_promise s x"
  shows "consistent (settle x outcome s)"
  using assms(1)
proof (rule consistent_settle)
  fix t assume "t \<in> set (timers s)"
  then show "timer_promise t \<noteq> x" by (rule free_promiseD(2) [OF assms(2)])
next
  fix e ev l assume "l \<in> set (emitter s ev)"
  then show "listener_promise l \<noteq> x" by (rule free_promiseD(3) [OF assms(2)])
qed

text \<open>Dropping timers or waiters keeps the channel consistent.\<close>

lemma consistent_drop_timers:
  assumes c: "consistent s"
  shows "consistent (s\<lparr>timers := filter P (timers s)\<rparr>)"
proof (rule consistent_shrink [OF c])
  note cs = consistentD [OF c]
  show "distinct (map fst (timers (s\<lparr>timers := filter P (timers s)\<rparr>)))"
    using timers_ok_distinct [OF cs(2)] by (simp add: distinct_map_filter)
next
  note cs = consistentD [OF c]
  fix t assume "t \<in> set (timers (s\<lparr>timers := filter P (timers s)\<rparr>))"
  then have "t \<in> set (timers s)" by simp
  from timers_okD(4) [OF cs(2) this]
  show "promises (s\<lparr>timers := filter P (timers s)\<rparr>) (timer_promise t) = Pending" by simp
next
  note cs = consistentD [OF c]
  fix ev l e assume "l \<in> set (emitter (s\<lparr>timers := filter P (timers s)\<rparr>) ev)"
  then have "l \<in> set (emitter s ev)" by simp
  from listeners_okD(2) [OF cs(3) this, of e]
  show "promises (s\<lparr>timers := filter P (timers s)\<rparr>) (listener_promise l) \<noteq> Rejected e" by simp
qed auto

lemma consistent_clearTimeout: "consistent s \<Longrightarrow> consistent (clearTimeout ho s)"
  by (cases ho) (simp_all add: clearTimeout_def consistent_drop_timers)

lemma consistent_emitter_off:
  assumes c: "consistent s"
  shows "consistent (emitter_off ident l s)"
proof (rule consistent_shrink [OF c])
  note cs = consistentD [OF c]
  fix t assume "t \<in> set (timers (emitter_off ident l s))"
  then have "t \<in> set (timers s)" by simp
  from timers_okD(4) [OF cs(2) this]
  show "promises (emitter_off ident l s) (timer_promise t) = Pending" by simp
next
  note cs = consistentD [OF c]
  fix ev l' e assume "l' \<in> set (emitter (emitter_off ident l s) ev)"
  then have "l' \<in> set (emitter s ev)" by (auto split: if_splits)
  from listeners_okD(2) [OF cs(3) this, of e]
  show "promises (emitter_off ident l s) (listener_promise l') \<noteq> Rejected e" by simp
qed (auto simp: timers_ok_distinct [OF consistentD(2) [OF c]])

subsection \<open>\<open>_sendMessage\<close>\<close>

lemma priv_sendMessage_members:
  "t \<in> set (timers (snd (priv_sendMessage action data timeout s))) \<longleftrightarrow>
      t \<in> set (timers s)
      \<or> (0 < timeout \<and> t = (ntimers s, clock s + timeout,
                               RejectTimeout (next_id s) (npromises s) (ntimers s)))"
  "l \<in> set (emitter (snd (priv_sendMessage action data timeout s)) ev) \<longleftrightarrow>
      l \<in> set (emitter s ev)
      \<or> (ev = next_id s
          \<and> l = CallbackReceived (npromises s) (if 0 < timeout then Some (ntimers s) else None))"
  by auto

lemma free_promise_priv_sendMessage:
  assumes "free_promise s x"
  shows "free_promise (snd (priv_sendMessage action data timeout s)) x"
proof (rule free_promise_mono [OF assms])
  fix t assume "t \<in> set (timers (snd (priv_sendMessage action data timeout s)))"
  then have "t \<in> set (timers s) \<or> timer_promise t = npromises s"
    by (simp only: priv_sendMessage_members) auto
  with free_promiseD(1) [OF assms]
  show "t \<in> set (timers s) \<or> timer_promise t \<noteq> x" by auto
next
  fix ev l assume "l \<in> set (emitter (snd (priv_sendMessage action data timeout s)) ev)"
  then have "l \<in> set (emitter s ev) \<or> listener_promise l = npromises s"
    by (simp only: priv_sendMessage_members) auto
  with free_promiseD(1) [OF assms]
  show "l \<in> set (emitter s ev) \<or> listener_promise l \<noteq> x" by auto
qed simp

lemma consistent_priv_sendMessage:
  assumes c: "consistent s"
  shows "consistent (snd (priv_sendMessage action data timeout s))"
proof -
  let ?s = "snd (priv_sendMessage action data timeout s)"
  let ?p = "npromises s" and ?h = "ntimers s"
  let ?t = "(?h, clock s + timeout, RejectTimeout (next_id s) ?p ?h)"
  let ?l = "CallbackReceived ?p (if 0 < timeout then Some ?h else None)"
  note cs = consistentD [OF c]
  note tD = timers_okD [OF cs(2)] and lD = listeners_okD [OF cs(3)]
  have pr: "promises ?s = (promises s)(?p := Pending)"
    and np: "npromises ?s = Suc ?p" and par: "parent ?s = parent s"
    and nt: "ntimers ?s = (if 0 < timeout then Suc ?h else ?h)"
    using cs(1) by simp_all
  have tm: "t \<in> set (timers ?s) \<longleftrightarrow> t \<in> set (timers s) \<or> (0 < timeout \<and> t = ?t)" for t
    by (rule priv_sendMessage_members)
  have em: "l \<in> set (emitter ?s ev) \<longleftrightarrow> l \<in> set (emitter s ev) \<or> (ev = next_id s \<and> l = ?l)"
    for l ev
    by (rule priv_sendMessage_members)
  have old_t: "fst t < ?h" "timer_promise t < ?p" "fst t \<noteq> ?h" "timer_promise t \<noteq> ?p"
    if "t \<in> set (timers s)" for t
    using tD(2,3) [OF that] by simp_all
  have old_l: "listener_promise l < ?p" "listener_promise l \<noteq> ?p"
    "listener_handle l \<noteq> Some ?h"
    if "l \<in> set (emitter s ev)" for l ev
    using lD(1) [OF that] lD(3) [OF that, of ?h] by auto
  have "timers_ok ?s"
  proof (rule timers_okI)
    have "?h \<notin> fst ` set (timers s)"
    proof
      assume "?h \<in> fst ` set (timers s)"
      then obtain t where "t \<in> set (timers s)" "fst t = ?h" by auto
      with old_t(3) show False by blast
    qed
    with timers_ok_distinct [OF cs(2)] show "distinct (map fst (timers ?s))" by simp
  next
    fix t assume "t \<in> set (timers ?s)"
    then consider "t \<in> set (timers s)" | "0 < timeout" "t = ?t" unfolding tm by blast
    then show "timer_own t = fst t \<and> fst t < ntimers ?s \<and> timer_promise t < npromises ?s
        \<and> promises ?s (timer_promise t) = Pending"
    proof cases
      case 1
      from tD [OF 1] old_t [OF 1] show ?thesis unfolding pr np nt by simp
    next
      case 2
      then show ?thesis unfolding pr np nt by simp
    qed
  next
    fix t t' assume "t \<in> set (timers ?s)" "t' \<in> set (timers ?s)"
      and e: "timer_promise t = timer_promise t'"
    then have "t \<in> set (timers s) \<or> t = ?t" "t' \<in> set (timers s) \<or> t' = ?t"
      unfolding tm by blast+
    with e timers_ok_uniq [OF cs(2), of t t'] old_t(4) [of t] old_t(4) [of t']
    show "fst t = fst t'" by auto
  qed
  moreover have "listeners_ok ?s"
  proof (rule listeners_okI)
    fix ev l assume "l \<in> set (emitter ?s ev)"
    then consider "l \<in> set (emitter s ev)" | "l = ?l" unfolding em by blast
    then show "listener_promise l < npromises ?s
        \<and> (\<forall>e. promises ?s (listener_promise l) \<noteq> Rejected e)
        \<and> (\<forall>h. listener_handle l = Some h \<longrightarrow> h < ntimers ?s)"
    proof cases
      case 1
      from lD(1) [OF 1] lD(2) [OF 1] lD(3) [OF 1] old_l(2) [OF 1]
      show ?thesis unfolding pr np nt by (auto simp: less_Suc_eq)
    next
      case 2
      then show ?thesis unfolding pr np nt by simp
    qed
  qed
  moreover have "linked ?s"
  proof (rule linkedI)
    fix t ev l assume "t \<in> set (timers ?s)" "l \<in> set (emitter ?s ev)"
    then have t: "t \<in> set (timers s) \<or> (0 < timeout \<and> t = ?t)"
      and l: "l \<in> set (emitter s ev) \<or> (ev = next_id s \<and> l = ?l)"
      unfolding tm em by blast+
    show "(listener_promise l = timer_promise t \<longrightarrow>
          listener_handle l = Some (fst t) \<and> ev = timer_ident t)
       \<and> (listener_handle l = Some (fst t) \<longrightarrow> listener_promise l = timer_promise t)"
    proof (cases "t \<in> set (timers s)")
      case told: True
      show ?thesis
      proof (cases "l \<in> set (emitter s ev)")
        case True
        from linkedD [OF cs(4) told True] show ?thesis by blast
      next
        case False
        with l have "l = ?l" by blast
        with old_t [OF told] show ?thesis by auto
      qed
    next
      case False
      with t have tn: "0 < timeout" "t = ?t" by blast+
      show ?thesis
      proof (cases "l \<in> set (emitter s ev)")
        case True
        from old_l [OF True] tn show ?thesis by auto
      next
        case False
        with l have "ev = next_id s" "l = ?l" by blast+
        with tn show ?thesis by simp
      qed
    qed
  qed
  moreover have "refs_ok ?s"
  proof (rule refs_okI)
    fix x r assume "r \<in> set (reactions ?s x)"
    then have "r \<in> set (reactions s x)" by (auto split: if_splits)
    from refs_okD(1) [OF cs(5) this]
    show "free_promise ?s (reaction_target r)" by (rule free_promise_priv_sendMessage)
  next
    fix j assume "j \<in> set (microtasks ?s)"
    then have "j \<in> set (microtasks s)" by simp
    from refs_okD(2) [OF cs(5) this]
    show "free_promise ?s (job_target j)" by (rule free_promise_priv_sendMessage)
  next
    fix u assume "u \<in> set (userPromises ?s)"
    then have "u \<in> set (userPromises s)" by simp
    from refs_okD(3) [OF cs(5) this]
    show "free_promise ?s u" by (rule free_promise_priv_sendMessage)
  qed
  ultimately show ?thesis using cs(1) par unfolding consistent_def by simp
qed

lemma in_flight_priv_sendMessage:
  assumes "consistent s" "0 < timeout"
  shows "in_flight (snd (priv_sendMessage action data timeout s))
           (npromises s) (ntimers s) (next_id s) (clock s + timeout)"
  unfolding in_flight_def
  using consistent_priv_sendMessage [OF assms(1), of action data timeout] assms(2)
  by (simp add: priv_sendMessage_members)

subsection \<open>Replies and timers\<close>

lemma listener_eq:
  "listener_promise l = p \<Longrightarrow> listener_handle l = ho \<Longrightarrow> l = CallbackReceived p ho"
  by (cases l) simp

lemma consistent_callbackReceived:
  assumes c: "consistent s" and l: "l \<in> set (emitter s ev)"
  shows "consistent (callbackReceived l arg s)"
proof -
  obtain p ho where leq: "l = CallbackReceived p ho" by (cases l)
  note cs = consistentD [OF c]
  have c1: "consistent (clearTimeout ho s)" by (rule consistent_clearTimeout [OF c])
  have "consistent (settle p (Fulfilled arg) (clearTimeout ho s))"
  proof (rule consistent_settle [OF c1])
    fix t assume t: "t \<in> set (timers (clearTimeout ho s))"
    show "timer_promise t \<noteq> p"
    proof
      assume e: "timer_promise t = p"
      from t have m: "t \<in> set (timers s)" by (cases ho) auto
      from linkedD(1) [OF cs(4) m l] e leq have "ho = Some (fst t)" by simp
      with t show False by simp
    qed
  qed simp
  then show ?thesis by (simp add: leq)
qed

lemma consistent_fold_callbackReceived:
  assumes "consistent s" "set ls \<subseteq> set (emitter s ev)"
  shows "consistent (fold (\<lambda>l. callbackReceived l arg) ls s)"
  using assms
proof (induction ls arbitrary: s)
  case Nil
  then show ?case by simp
next
  case (Cons l ls)
  from Cons.prems have "consistent (callbackReceived l arg s)"
    by (auto intro: consistent_callbackReceived)
  moreover from Cons.prems have "set ls \<subseteq> set (emitter (callbackReceived l arg s) ev)"
    by simp
  ultimately show ?case using Cons.IH by simp
qed

lemma consistent_callbackGlobal_fn:
  "consistent s \<Longrightarrow> consistent (callbackGlobal_fn ident result s)"
  unfolding callbackGlobal_fn_def emitter_trigger_def
  by (rule consistent_fold_callbackReceived [where ev = ident]) simp_all

lemma timer_eq:
  "fst t = h \<Longrightarrow> timer_own t = h' \<Longrightarrow> timer_ident t = ident \<Longrightarrow> timer_promise t = p \<Longrightarrow>
     \<exists>due. t = (h, due, RejectTimeout ident p h')"
  by (cases t rule: timer_own.cases) simp

lemma consistent_fire_timer:
  assumes c: "consistent s"
  shows "consistent (fire_timer h s)"
proof (cases "find (\<lambda>t. fst t = h) (timers s)")
  case None
  with c show ?thesis by (simp add: fire_timer_def)
next
  case (Some t)
  note cs = consistentD [OF c]
  from find_handle_Some [OF Some] have t: "t \<in> set (timers s)" "fst t = h" by blast+
  from timer_eq [OF t(2) timers_okD(1) [OF cs(2) t(1)] refl refl] t(2)
  obtain due where teq: "t = (h, due, RejectTimeout (timer_ident t) (timer_promise t) h)"
    by auto
  let ?p = "timer_promise t" and ?i = "timer_ident t"
  let ?s1 = "s\<lparr>timers := filter (\<lambda>t. fst t \<noteq> h) (timers s)\<rparr>"
  let ?s2 = "emitter_off ?i (CallbackReceived ?p (Some h)) ?s1"
  have c2: "consistent ?s2"
    by (intro consistent_emitter_off consistent_drop_timers c)
  have "consistent (settle ?p (Rejected MESSAGE_TIMEOUT_REASON) ?s2)"
  proof (rule consistent_settle [OF c2])
    fix t' assume "t' \<in> set (timers ?s2)"
    then have m: "t' \<in> set (timers s)" "fst t' \<noteq> h" by simp_all
    show "timer_promise t' \<noteq> ?p"
    proof
      assume "timer_promise t' = ?p"
      from timers_ok_uniq [OF cs(2) m(1) t(1) this] m(2) t(2) show False by simp
    qed
  next
    fix e ev l assume "l \<in> set (emitter ?s2 ev)"
    then have m: "l \<in> set (emitter s ev)"
      and n: "\<not> (ev = ?i \<and> l = CallbackReceived ?p (Some h))"
      by (auto split: if_splits)
    show "listener_promise l \<noteq> ?p"
    proof
      assume e: "listener_promise l = ?p"
      from linkedD(1,2) [OF cs(4) t(1) m e] t(2)
      have "listener_handle l = Some h" "ev = ?i" by simp_all
      with listener_eq [OF e this(1)] n show False by simp
    qed
  qed
  moreover have "fire_timer h s =
      (if due \<le> clock s then settle ?p (Rejected MESSAGE_TIMEOUT_REASON) ?s2 else s)"
    using Some by (subst (asm) teq) (simp add: fire_timer_def)
  ultimately show ?thesis using c by simp
qed

subsection \<open>Microtasks\<close>

lemma consistent_promise_then:
  assumes c: "consistent s"
  shows "consistent (snd (promise_then x f g s))"
    and "free_promise (snd (promise_then x f g s)) (npromises s)"
proof -
  let ?s1 = "snd (newPromise Pending s)"
  note cs = consistentD [OF c]
  have f: "free_promise ?s1 (npromises s)"
    by (rule fresh_promise_free [OF cs(2,3)]) simp_all
  have "consistent (subscribe x (Then f g (npromises s)) ?s1)"
    by (rule consistent_subscribe [OF consistent_newPromise [OF c]]) (simp add: f)
  then show "consistent (snd (promise_then x f g s))"
    by (simp add: promise_then_def split_def)
  from f show "free_promise (snd (promise_then x f g s)) (npromises s)"
    by (simp add: promise_then_def split_def)
qed

lemma free_promise_promise_then:
  assumes "free_promise s y"
  shows "free_promise (snd (promise_then x f g s)) y"
  by (rule free_promise_mono [OF assms]) simp_all

lemma consistent_callback:
  assumes c: "consistent s" and q: "free_promise s q"
  shows "consistent (resolve_with q (fst (call_callback f v s)) (snd (call_callback f v s)))"
proof (cases f)
  case SetConnected
  have "consistent (s\<lparr>connected := True\<rparr>)" using c
    by (subst consistent_fields [of _ s]) simp_all
  moreover have "free_promise (s\<lparr>connected := True\<rparr>) q" using q
    by (subst free_promise_fields [of _ s]) simp_all
  ultimately show ?thesis using SetConnected by (simp add: consistent_settle_free)
next
  case HandshakeFailed
  let ?s1 = "s\<lparr>connecting := False\<rparr>"
  have c1: "consistent ?s1" using c by (subst consistent_fields [of _ s]) simp_all
  have q1: "free_promise ?s1 q" using q by (subst free_promise_fields [of _ s]) simp_all
  have "consistent (enqueue (ThenableJob q (npromises s))
      (snd (newPromise (Rejected HANDSHAKE_TIMEOUT_REASON) ?s1)))"
    by (rule consistent_enqueue [OF consistent_newPromise [OF c1]])
       (simp add: free_promise_newPromise [OF q1])
  then show ?thesis using HandshakeFailed by (simp add: split_def Let_def)
next
  case (IssueMessage action data timeout)
  have "consistent (enqueue (ThenableJob q (npromises s))
      (snd (priv_sendMessage action data timeout s)))"
    by (rule consistent_enqueue [OF consistent_priv_sendMessage [OF c]])
       (simp add: free_promise_priv_sendMessage [OF q])
  then show ?thesis using IssueMessage by (simp add: split_def Let_def)
next
  case (ReplyWith ident)
  let ?s1 = "s\<lparr>sent := sent s @ [reply_payload ident v]\<rparr>"
  have "consistent ?s1" using c by (subst consistent_fields [of _ s]) simp_all
  moreover have "free_promise ?s1 q" using q
    by (subst free_promise_fields [of _ s]) simp_all
  ultimately show ?thesis using ReplyWith consistentD(1) [OF c]
    by (simp add: consistent_settle_free)
qed

lemma consistent_run_job:
  assumes c: "consistent s" and q: "free_promise s (job_target j)"
  shows "consistent (run_job j s)"
proof (cases "(j, s)" rule: run_job.cases)
  case (1 q r s)
  with c q show ?thesis by (simp add: consistent_subscribe)
next
  case (2 q outcome s)
  with c q show ?thesis by (simp add: consistent_settle_free)
next
  case (3 onFulfilled onRejected q s)
  with c show ?thesis by simp
next
  case (4 onFulfilled onRejected q' v s')
  with c q consistent_callback [of s q' _ v] show ?thesis
    by (cases onFulfilled) (simp_all add: consistent_settle_free split_def Let_def)
next
  case (5 onFulfilled onRejected q' e s')
  with c q consistent_callback [of s q' _ e] show ?thesis
    by (cases onRejected) (simp_all add: consistent_settle_free split_def Let_def)
qed

lemma consistent_microtask:
  assumes c: "consistent s"
  shows "consistent (microtask s)"
proof (cases "microtasks s")
  case Nil
  with c show ?thesis by simp
next
  case (Cons j js)
  let ?s0 = "s\<lparr>microtasks := js\<rparr>"
  note cs = consistentD [OF c]
  have c0: "consistent ?s0"
  proof (rule consistent_shrink [OF c])
    fix t assume "t \<in> set (timers ?s0)"
    then show "promises ?s0 (timer_promise t) = Pending"
      using timers_okD(4) [OF cs(2)] by simp
  next
    fix ev l e assume "l \<in> set (emitter ?s0 ev)"
    then show "promises ?s0 (listener_promise l) \<noteq> Rejected e"
      using listeners_okD(2) [OF cs(3)] by simp
  qed (auto simp: Cons timers_ok_distinct [OF cs(2)])
  have "free_promise s (job_target j)" by (rule refs_okD(2) [OF cs(5)]) (simp add: Cons)
  then have "free_promise ?s0 (job_target j)"
    by (subst free_promise_fields [of _ s]) simp_all
  with c0 show ?thesis by (simp add: microtask_Cons [OF Cons] consistent_run_job)
qed

subsection \<open>The public methods, the entry points and the events\<close>

lemma sendHandshake_unconnected_eq:
  "\<not> connected s \<Longrightarrow> \<not> connecting s \<Longrightarrow>
   sendHandshake s =
     Inr (Some (npromises s + 2),
       (snd (promise_then (npromises s + 1) None (Some HandshakeFailed)
          (snd (promise_then (npromises s) (Some SetConnected) None
             (snd (priv_sendMessage HANDSHAKE_ACTION (JStr (hm s)) (handshakeTimeout s)
                (s\<lparr>connecting := True\<rparr>)))))))
       \<lparr>whenReady := Some (npromises s + 2)\<rparr>)"
  by (simp add: sendHandshake_def split_def Let_def)

lemma consistent_sendHandshake:
  assumes c: "consistent s" and r: "sendHandshake s = Inr (w, s1)"
  shows "consistent s1"
proof (cases "connecting s")
  case True
  with r c show ?thesis by (cases "connected s") (simp_all add: sendHandshake_def)
next
  case False
  from r have nc: "\<not> connected s" by (auto simp: sendHandshake_def split: if_splits)
  let ?s0 = "s\<lparr>connecting := True\<rparr>"
  let ?s1 = "snd (priv_sendMessage HANDSHAKE_ACTION (JStr (hm s)) (handshakeTimeout s) ?s0)"
  let ?s2 = "snd (promise_then (npromises s) (Some SetConnected) None ?s1)"
  let ?s3 = "snd (promise_then (npromises s + 1) None (Some HandshakeFailed) ?s2)"
  have "consistent ?s0" using c by (subst consistent_fields [of _ s]) simp_all
  then have "consistent ?s3"
    by (intro consistent_promise_then(1) consistent_priv_sendMessage)
  then have c3: "consistent (?s3\<lparr>whenReady := Some (npromises s + 2)\<rparr>)"
    by (subst consistent_fields [of _ ?s3]) simp_all
  have "s1 = ?s3\<lparr>whenReady := Some (npromises s + 2)\<rparr>"
    using r unfolding sendHandshake_unconnected_eq [OF nc False] by auto
  with c3 show ?thesis by simp
qed

lemma consistent_sendMessage:
  assumes c: "consistent s" and r: "sendMessage action data timeoutArg s = Inr (m, s1)"
  shows "consistent s1"
proof (cases "whenReady s")
  case (Some w)
  with r c show ?thesis by (auto simp: sendMessage_ready intro: consistent_promise_then(1))
next
  case None
  with sendMessage_throws [of s action data timeoutArg] r
  have u: "\<not> connected s" "\<not> connecting s" by auto
  from sendMessage_first [OF None u, of action data timeoutArg] r obtain s' where
    s': "sendHandshake s = Inr (Some (npromises s + 2), s')"
    "s1 = snd (promise_then (npromises s + 2)
          (Some (IssueMessage action data
             (case timeoutArg of None \<Rightarrow> messageTimeout s | Some t \<Rightarrow> t))) None s')"
    by auto
  from consistent_sendHandshake [OF c s'(1)] show ?thesis
    unfolding s'(2) by (rule consistent_promise_then(1))
qed

lemma consistent_handlerGlobal_fn:
  assumes c: "consistent s" and r: "handlerGlobal_fn ident action data s = Inr s1"
  shows "consistent s1"
proof (cases "priv_handleMessage action data s")
  case (HThrows e)
  with r show ?thesis by (simp add: handlerGlobal_fn_def)
next
  case (HReturns v)
  have "consistent (s\<lparr>sent := sent s @ [reply_payload ident v]\<rparr>)" using c
    by (subst consistent_fields [of _ s]) simp_all
  with r HReturns consistentD(1) [OF c] show ?thesis by (auto simp: handlerGlobal_fn_def)
next
  case (HPromise st)
  note cs = consistentD [OF c]
  let ?s1 = "snd (newPromise st s)"
  let ?s2 = "?s1\<lparr>userPromises := npromises s # userPromises ?s1\<rparr>"
  have c1: "consistent ?s1" by (rule consistent_newPromise [OF c])
  have f: "free_promise ?s1 (npromises s)"
    by (rule fresh_promise_free [OF cs(2,3)]) simp_all
  have "consistent ?s2"
  proof (rule consistent_shrink [OF c1])
    note cs1 = consistentD [OF c1]
    fix t assume "t \<in> set (timers ?s2)"
    then have "t \<in> set (timers ?s1)" by simp
    from timers_okD(4) [OF cs1(2) this] show "promises ?s2 (timer_promise t) = Pending" by simp
  next
    note cs1 = consistentD [OF c1]
    fix ev l e assume "l \<in> set (emitter ?s2 ev)"
    then have "l \<in> set (emitter ?s1 ev)" by simp
    from listeners_okD(2) [OF cs1(3) this, of e]
    show "promises ?s2 (listener_promise l) \<noteq> Rejected e" by simp
  next
    fix x r assume "r \<in> set (reactions ?s2 x)"
    then show "(\<exists>y. r \<in> set (reactions ?s1 y)) \<or> free_promise ?s2 (reaction_target r)"
      by (intro disjI1 exI [of _ x]) simp
  next
    have f2: "free_promise ?s2 (npromises s)" using f
      by (subst free_promise_fields [of _ ?s1]) simp_all
    fix u assume "u \<in> set (userPromises ?s2)"
    with f2 show "u \<in> set (userPromises ?s1) \<or> free_promise ?s2 u" by auto
  qed (auto simp: timers_ok_distinct [OF cs(2)])
  then have "consistent (snd (promise_then (npromises s) (Some (ReplyWith ident)) None ?s2))"
    by (rule consistent_promise_then(1))
  with r HPromise show ?thesis by (simp add: handlerGlobal_fn_def split_def Let_def)
qed

lemma consistent_step:
  assumes c: "consistent s"
  shows "consistent (step ev s)"
proof (cases ev)
  case CallSendHandshake
  with c consistent_sendHandshake [OF c] show ?thesis by (auto split: sum.splits)
next
  case (CallSendMessage action data timeoutArg)
  with c consistent_sendMessage [OF c] show ?thesis by (auto split: sum.splits)
next
  case (InvokeHandler ident action data)
  with c consistent_handlerGlobal_fn [OF c] show ?thesis by (auto split: sum.splits)
next
  case (InvokeCallback ident result)
  with c show ?thesis by (simp add: consistent_callbackGlobal_fn)
next
  case (TimerFires h)
  with c show ?thesis by (simp add: consistent_fire_timer)
next
  case Microtask
  with c show ?thesis by (simp add: consistent_microtask)
next
  case (Tick dt)
  have "consistent (s\<lparr>clock := clock s + int dt\<rparr>)" using c
    by (subst consistent_fields [of _ s]) simp_all
  with Tick show ?thesis by simp
next
  case (UserSettles u outcome)
  show ?thesis
  proof (cases "u \<in> set (userPromises s) \<and> outcome \<noteq> Pending")
    case True
    then have "free_promise s u" using refs_okD(3) [OF consistentD(5) [OF c]] by blast
    with c UserSettles True show ?thesis by (simp add: consistent_settle_free)
  next
    case False
    with c UserSettles show ?thesis by auto
  qed
qed

lemma consistent_run: "consistent s \<Longrightarrow> consistent (run evs s)"
  unfolding run_def by (induction evs arbitrary: s) (simp_all add: consistent_step)

text \<open>A channel is consistent from its construction on, when the transport target was
  located.\<close>

lemma consistent_constructor:
  assumes r: "constructor opts webkit t0 = Inr s" and p: "parent s \<noteq> None"
  shows "consistent s"
proof -
  from r obtain messageHandlers where w: "webkit = Some (Some messageHandlers)"
    by (auto simp: constructor_def split: option.splits)
  define s2 where "s2 = \<lparr>connecting = False, connected = False, whenReady = None,
      hm = handlerGlobal opts, cb = callbackGlobal opts,
      handshakeTimeout = optHandshakeTimeout opts, messageTimeout = optMessageTimeout opts,
      idGen = idGenerator opts, handleMessage = optHandleMessage opts,
      parent = map_of messageHandlers (scriptMessageHandler opts),
      emitter = (\<lambda>ev. []), promises = (\<lambda>p. Pending), reactions = (\<lambda>p. []), npromises = 0,
      userPromises = [], timers = [], ntimers = 0, microtasks = [], clock = t0,
      globals = [(callbackGlobal opts, CallbackEntry), (handlerGlobal opts, HandlerEntry)],
      sent = []\<rparr>"
  have r2: "(autoHandshake opts \<longrightarrow>
               (case sendHandshake s2 of Inl e \<Rightarrow> Inl e | Inr (w, s3) \<Rightarrow> Inr s3) = Inr s)
            \<and> (\<not> autoHandshake opts \<longrightarrow> s = s2)"
    using r unfolding w by (cases "autoHandshake opts") (auto simp: constructor_def Let_def s2_def)
  have ps: "parent s = parent s2"
  proof (cases "autoHandshake opts")
    case True
    with r2 sendHandshake_unconnected [of s2] show ?thesis by (auto simp: s2_def)
  next
    case False
    with r2 show ?thesis by simp
  qed
  have "consistent s2"
    unfolding consistent_def timers_ok_def listeners_ok_def linked_def refs_ok_def
    using p ps by (simp add: s2_def)
  with r2 consistent_sendHandshake [of s2] show ?thesis
    by (auto split: if_splits sum.splits)
qed

lemma consistent_example_channel: "consistent example_channel"
  unfolding consistent_def timers_ok_def listeners_ok_def linked_def refs_ok_def by simp

section \<open>A settled promise stays as it is\<close>

lemma keeps_refl [simp]: "keeps p s s"
  by (simp add: keeps_def)

lemma keeps_trans: "keeps p s s1 \<Longrightarrow> keeps p s1 s2 \<Longrightarrow> keeps p s s2"
  unfolding keeps_def by (metis le_trans less_le_trans)

lemma keeps_fields:
  "npromises s' = npromises s \<Longrightarrow> promises s' = promises s \<Longrightarrow> keeps p s s'"
  by (simp add: keeps_def)

lemma keeps_cong:
  "npromises s0 = npromises s \<Longrightarrow> promises s0 = promises s \<Longrightarrow> keeps p s0 s' \<Longrightarrow> keeps p s s'"
  by (simp add: keeps_def)

lemma keeps_newPromise: "keeps p s (snd (newPromise st s))"
  by (simp add: keeps_def)

lemma keeps_settle: "keeps p s (settle x outcome s)"
  by (auto simp: keeps_def settle_changed)

lemma keeps_subscribe: "keeps p s (subscribe x r s)"
  by (rule keeps_fields) simp_all

lemma keeps_enqueue: "keeps p s (enqueue j s)"
  by (rule keeps_fields) simp_all

lemma keeps_promise_then: "keeps p s (snd (promise_then x f g s))"
  by (simp add: keeps_def)

lemma keeps_priv_sendMessage: "keeps p s (snd (priv_sendMessage action data timeout s))"
  by (cases "parent s") (simp_all add: keeps_def)

lemma keeps_callbackReceived: "keeps p s (callbackReceived l arg s)"
proof (cases l)
  case (CallbackReceived x ho)
  have "keeps p s (clearTimeout ho s)" by (rule keeps_fields) simp_all
  from keeps_trans [OF this keeps_settle] CallbackReceived show ?thesis by simp
qed

lemma keeps_fold_callbackReceived: "keeps p s (fold (\<lambda>l. callbackReceived l arg) ls s)"
proof (induction ls arbitrary: s)
  case Nil
  show ?case by simp
next
  case (Cons l ls)
  from keeps_trans [OF keeps_callbackReceived Cons] show ?case by simp
qed

lemma keeps_callbackGlobal_fn: "keeps p s (callbackGlobal_fn ident result s)"
  by (simp add: callbackGlobal_fn_def emitter_trigger_def keeps_fold_callbackReceived)

lemma keeps_run_timer: "keeps p s (run_timer f s)"
proof (cases f)
  case (RejectTimeout ident x h)
  have "keeps p s (emitter_off ident (CallbackReceived x (Some h)) s)"
    by (rule keeps_fields) simp_all
  from keeps_trans [OF this keeps_settle] RejectTimeout show ?thesis by simp
qed

lemma keeps_fire_timer: "keeps p s (fire_timer h s)"
proof -
  have "keeps p s (run_timer f (s\<lparr>timers := ts\<rparr>))" for f ts
    by (rule keeps_cong [OF _ _ keeps_run_timer]) simp_all
  then show ?thesis by (simp add: fire_timer_def split: option.splits prod.splits)
qed

lemma keeps_callback:
  "keeps p s (resolve_with q (fst (call_callback f v s)) (snd (call_callback f v s)))"
proof (cases f)
  case SetConnected
  have "keeps p s (settle q (Fulfilled JUndefined) (s\<lparr>connected := True\<rparr>))"
    by (rule keeps_cong [OF _ _ keeps_settle]) simp_all
  with SetConnected show ?thesis by simp
next
  case HandshakeFailed
  let ?s1 = "snd (newPromise (Rejected HANDSHAKE_TIMEOUT_REASON) (s\<lparr>connecting := False\<rparr>))"
  have "keeps p s ?s1" by (rule keeps_cong [OF _ _ keeps_newPromise]) simp_all
  from keeps_trans [OF this keeps_enqueue] HandshakeFailed show ?thesis
    by (simp add: split_def Let_def)
next
  case (IssueMessage action data timeout)
  from keeps_trans [OF keeps_priv_sendMessage keeps_enqueue] IssueMessage show ?thesis
    by (simp add: split_def Let_def)
next
  case (ReplyWith ident)
  show ?thesis
  proof (cases "parent s")
    case None
    with ReplyWith show ?thesis by (simp add: keeps_settle)
  next
    case (Some t)
    have "keeps p s (settle q (Fulfilled JUndefined) (s\<lparr>sent := sent s @ [reply_payload ident v]\<rparr>))"
      by (rule keeps_cong [OF _ _ keeps_settle]) simp_all
    with ReplyWith Some show ?thesis by simp
  qed
qed

lemma keeps_run_job: "keeps p s (run_job j s)"
proof (cases "(j, s)" rule: run_job.cases)
  case (4 onFulfilled onRejected q v s')
  with keeps_callback [of p s q _ v] show ?thesis
    by (cases onFulfilled) (simp_all add: keeps_settle split_def Let_def)
next
  case (5 onFulfilled onRejected q e s')
  with keeps_callback [of p s q _ e] show ?thesis
    by (cases onRejected) (simp_all add: keeps_settle split_def Let_def)
qed (simp_all add: keeps_subscribe keeps_settle)

lemma keeps_microtask: "keeps p s (microtask s)"
proof (cases "microtasks s")
  case Nil
  then show ?thesis by simp
next
  case (Cons j js)
  have "keeps p s (run_job j (s\<lparr>microtasks := js\<rparr>))"
    by (rule keeps_cong [OF _ _ keeps_run_job]) simp_all
  then show ?thesis by (simp add: microtask_Cons [OF Cons])
qed

lemma keeps_sendHandshake: "sendHandshake s = Inr (w, s1) \<Longrightarrow> keeps p s s1"
  using sendHandshake_unconnected [of s]
  by (cases "connected s"; cases "connecting s")
     (auto simp: sendHandshake_connected sendHandshake_connecting keeps_def)

lemma keeps_sendMessage:
  assumes "sendMessage action data timeoutArg s = Inr (m, s1)"
  shows "keeps p s s1"
proof (cases "whenReady s")
  case (Some w)
  with assms show ?thesis by (auto simp: sendMessage_ready keeps_promise_then)
next
  case None
  with sendMessage_throws [of s action data timeoutArg] assms
  have u: "\<not> connected s" "\<not> connecting s" by auto
  from sendMessage_first [OF None u, of action data timeoutArg] assms obtain s' where
    s': "sendHandshake s = Inr (Some (npromises s + 2), s')"
    "s1 = snd (promise_then (npromises s + 2)
          (Some (IssueMessage action data
             (case timeoutArg of None \<Rightarrow> messageTimeout s | Some t \<Rightarrow> t))) None s')"
    by auto
  from keeps_trans [OF keeps_sendHandshake [OF s'(1)] keeps_promise_then] show ?thesis
    unfolding s'(2) .
qed

lemma keeps_handlerGlobal_fn:
  assumes "handlerGlobal_fn ident action data s = Inr s1"
  shows "keeps p s s1"
proof (cases "priv_handleMessage action data s")
  case (HThrows e)
  with assms show ?thesis by (simp add: handlerGlobal_fn_def)
next
  case (HReturns v)
  with assms show ?thesis
    by (cases "parent s") (auto simp: handlerGlobal_fn_def keeps_def)
next
  case (HPromise st)
  with assms show ?thesis by (auto simp: handlerGlobal_fn_def split_def Let_def keeps_def)
qed

lemma keeps_step: "keeps p s (step ev s)"
proof (cases ev)
  case CallSendHandshake
  with keeps_sendHandshake [of s] show ?thesis by (auto split: sum.splits)
next
  case (CallSendMessage action data timeoutArg)
  with keeps_sendMessage [of action data timeoutArg s] show ?thesis by (auto split: sum.splits)
next
  case (InvokeHandler ident action data)
  with keeps_handlerGlobal_fn [of ident action data s] show ?thesis by (auto split: sum.splits)
next
  case (Tick dt)
  then show ?thesis by (simp add: keeps_def)
qed (simp_all add: keeps_callbackGlobal_fn keeps_fire_timer keeps_microtask keeps_settle)

lemma keeps_run: "keeps p s (run evs s)"
  unfolding run_def
proof (induction evs arbitrary: s)
  case Nil
  show ?case by simp
next
  case (Cons ev evs)
  from keeps_trans [OF keeps_step Cons] show ?case by simp
qed

lemma settled_stays:
  "p < npromises s \<Longrightarrow> promises s p \<noteq> Pending \<Longrightarrow> promises (run evs s) p = promises s p"
  using keeps_run [of p s evs] by (simp add: keeps_def)

section \<open>A call in flight\<close>

subsection \<open>Operations that clear no timer and remove no waiter\<close>

lemma grows_refl [simp]: "grows s s"
  by (simp add: grows_def)

lemma grows_trans: "grows s s1 \<Longrightarrow> grows s1 s2 \<Longrightarrow> grows s s2"
  unfolding grows_def by blast

lemma grows_fields: "timers s' = timers s \<Longrightarrow> emitter s' = emitter s \<Longrightarrow> grows s s'"
  by (simp add: grows_def)

lemma grows_cong:
  "timers s0 = timers s \<Longrightarrow> emitter s0 = emitter s \<Longrightarrow> grows s0 s' \<Longrightarrow> grows s s'"
  by (simp add: grows_def)

lemma growsD:
  assumes "grows s s'"
  shows "t \<in> set (timers s) \<Longrightarrow> t \<in> set (timers s')"
    "l \<in> set (emitter s ev) \<Longrightarrow> l \<in> set (emitter s' ev)"
  using assms unfolding grows_def by blast+

lemma grows_priv_sendMessage: "grows s (snd (priv_sendMessage action data timeout s))"
  by (auto simp: grows_def)

lemma grows_promise_then: "grows s (snd (promise_then x f g s))"
  by (rule grows_fields) simp_all

lemma grows_callback:
  "grows s (resolve_with q (fst (call_callback f v s)) (snd (call_callback f v s)))"
proof (cases f)
  case (IssueMessage action data timeout)
  have "grows (snd (priv_sendMessage action data timeout s))
      (enqueue (ThenableJob q (npromises s)) (snd (priv_sendMessage action data timeout s)))"
    by (rule grows_fields) simp_all
  from grows_trans [OF grows_priv_sendMessage this] IssueMessage show ?thesis
    by (simp add: split_def Let_def)
next
  case (ReplyWith ident)
  then show ?thesis by (cases "parent s") (simp_all add: grows_def)
qed (simp_all add: grows_def split_def Let_def)

lemma grows_run_job: "grows s (run_job j s)"
proof (cases "(j, s)" rule: run_job.cases)
  case (4 onFulfilled onRejected q v s')
  with grows_callback [of s q _ v] show ?thesis
    by (cases onFulfilled) (simp_all add: grows_def split_def Let_def)
next
  case (5 onFulfilled onRejected q e s')
  with grows_callback [of s q _ e] show ?thesis
    by (cases onRejected) (simp_all add: grows_def split_def Let_def)
qed (simp_all add: grows_def)

lemma grows_microtask: "grows s (microtask s)"
proof (cases "microtasks s")
  case Nil
  then show ?thesis by simp
next
  case (Cons j js)
  have "grows s (run_job j (s\<lparr>microtasks := js\<rparr>))"
    by (rule grows_cong [OF _ _ grows_run_job]) simp_all
  then show ?thesis by (simp add: microtask_Cons [OF Cons])
qed

lemma grows_sendHandshake:
  assumes "sendHandshake s = Inr (w, s1)"
  shows "grows s s1"
proof (cases "connecting s")
  case True
  with assms show ?thesis by (cases "connected s") (simp_all add: sendHandshake_def)
next
  case False
  from assms have nc: "\<not> connected s" by (auto simp: sendHandshake_def split: if_splits)
  let ?s0 = "s\<lparr>connecting := True\<rparr>"
  let ?s1 = "snd (priv_sendMessage HANDSHAKE_ACTION (JStr (hm s)) (handshakeTimeout s) ?s0)"
  let ?s3 = "snd (promise_then (npromises s + 1) None (Some HandshakeFailed)
               (snd (promise_then (npromises s) (Some SetConnected) None ?s1)))"
  have "grows s ?s1" by (rule grows_cong [OF _ _ grows_priv_sendMessage]) simp_all
  moreover have "grows ?s1 (?s3\<lparr>whenReady := Some (npromises s + 2)\<rparr>)"
    by (rule grows_fields) simp_all
  moreover have "s1 = ?s3\<lparr>whenReady := Some (npromises s + 2)\<rparr>"
    using assms unfolding sendHandshake_unconnected_eq [OF nc False] by auto
  ultimately show ?thesis using grows_trans by blast
qed

lemma grows_sendMessage:
  assumes "sendMessage action data timeoutArg s = Inr (m, s1)"
  shows "grows s s1"
proof (cases "whenReady s")
  case (Some w)
  with assms show ?thesis by (auto simp: sendMessage_ready grows_promise_then)
next
  case None
  with sendMessage_throws [of s action data timeoutArg] assms
  have u: "\<not> connected s" "\<not> connecting s" by auto
  from sendMessage_first [OF None u, of action data timeoutArg] assms obtain s' where
    s': "sendHandshake s = Inr (Some (npromises s + 2), s')"
    "s1 = snd (promise_then (npromises s + 2)
          (Some (IssueMessage action data
             (case timeoutArg of None \<Rightarrow> messageTimeout s | Some t \<Rightarrow> t))) None s')"
    by auto
  from grows_trans [OF grows_sendHandshake [OF s'(1)] grows_promise_then] show ?thesis
    unfolding s'(2) .
qed

lemma grows_handlerGlobal_fn:
  assumes "handlerGlobal_fn ident action data s = Inr s1"
  shows "grows s s1"
proof (cases "priv_handleMessage action data s")
  case (HThrows e)
  with assms show ?thesis by (simp add: handlerGlobal_fn_def)
next
  case (HReturns v)
  with assms show ?thesis
    by (cases "parent s") (auto simp: handlerGlobal_fn_def grows_def)
next
  case (HPromise st)
  with assms show ?thesis by (auto simp: handlerGlobal_fn_def split_def Let_def grows_def)
qed

subsection \<open>Events that are neither the reply nor the timer of the call\<close>

lemma in_flightD:
  assumes "in_flight s p h ident due"
  shows "consistent s" "(h, due, RejectTimeout ident p h) \<in> set (timers s)"
    "CallbackReceived p (Some h) \<in> set (emitter s ident)"
    "promises s p = Pending" "p < npromises s"
proof -
  from assms show c: "consistent s" and t: "(h, due, RejectTimeout ident p h) \<in> set (timers s)"
    and "CallbackReceived p (Some h) \<in> set (emitter s ident)"
    unfolding in_flight_def by blast+
  from timers_okD(3,4) [OF consistentD(2) [OF c] t]
  show "promises s p = Pending" "p < npromises s" by simp_all
qed

lemma in_flight_grows:
  assumes "in_flight s p h ident due" "consistent s'" "grows s s'"
  shows "in_flight s' p h ident due"
  using assms growsD [OF assms(3)] unfolding in_flight_def by blast

text \<open>Waiters registered under another id do not clear the timer of the call.\<close>

lemma other_listeners_handle:
  assumes f: "in_flight s p h ident due" and l: "l \<in> set (emitter s ident')" and n: "ident' \<noteq> ident"
  shows "listener_handle l \<noteq> Some h"
proof
  assume e: "listener_handle l = Some h"
  note c = consistentD [OF in_flightD(1) [OF f]]
  from linkedD(3) [OF c(4) in_flightD(2) [OF f] l] e
  have "listener_promise l = p" by simp
  from linkedD(2) [OF c(4) in_flightD(2) [OF f] l] this n show False by simp
qed

lemma fold_callbackReceived_timer_stays:
  assumes "\<forall>l \<in> set ls. listener_handle l \<noteq> Some (fst t)" "t \<in> set (timers s)"
  shows "t \<in> set (timers (fold (\<lambda>l. callbackReceived l arg) ls s))"
  using assms
proof (induction ls arbitrary: s)
  case Nil
  then show ?case by simp
next
  case (Cons l ls)
  obtain x ho where l: "l = CallbackReceived x ho" by (cases l)
  with Cons.prems have "t \<in> set (timers (callbackReceived l arg s))"
    by (cases ho) auto
  with Cons show ?case by simp
qed

lemma in_flight_step:
  assumes f: "in_flight s p h ident due" and q: "quiet ident h ev"
  shows "in_flight (step ev s) p h ident due"
proof -
  note fd = in_flightD [OF f]
  have c': "consistent (step ev s)" by (rule consistent_step [OF fd(1)])
  show ?thesis
  proof (cases ev)
    case CallSendHandshake
    with grows_sendHandshake [of s] have "grows s (step ev s)" by (auto split: sum.splits)
    with f c' show ?thesis by (rule in_flight_grows)
  next
    case (CallSendMessage action data timeoutArg)
    with grows_sendMessage [of action data timeoutArg s] have "grows s (step ev s)"
      by (auto split: sum.splits)
    with f c' show ?thesis by (rule in_flight_grows)
  next
    case (InvokeHandler ident' action data)
    with grows_handlerGlobal_fn [of ident' action data s] have "grows s (step ev s)"
      by (auto split: sum.splits)
    with f c' show ?thesis by (rule in_flight_grows)
  next
    case Microtask
    then have "grows s (step ev s)" by (simp add: grows_microtask)
    with f c' show ?thesis by (rule in_flight_grows)
  next
    case (Tick dt)
    then have "grows s (step ev s)" by (simp add: grows_def)
    with f c' show ?thesis by (rule in_flight_grows)
  next
    case (UserSettles u outcome)
    then have "grows s (step ev s)" by (simp add: grows_def)
    with f c' show ?thesis by (rule in_flight_grows)
  next
    case (InvokeCallback ident' result)
    with q have n: "ident' \<noteq> ident" by simp
    have "\<forall>l \<in> set (emitter s ident'). listener_handle l \<noteq> Some h"
      using other_listeners_handle [OF f _ n] by blast
    then have "(h, due, RejectTimeout ident p h) \<in> set (timers (step ev s))"
      using fold_callbackReceived_timer_stays [of "emitter s ident'" "(h, due, RejectTimeout ident p h)" s result]
        fd(2)
      by (simp add: InvokeCallback callbackGlobal_fn_def emitter_trigger_def)
    with c' fd(3) show ?thesis by (simp add: in_flight_def InvokeCallback)
  next
    case (TimerFires h')
    with q have n: "h' \<noteq> h" by simp
    show ?thesis
    proof (cases "find (\<lambda>t. fst t = h') (timers s)")
      case None
      with f TimerFires show ?thesis by (simp add: fire_timer_def)
    next
      case (Some t)
      from find_handle_Some [OF Some] have t: "t \<in> set (timers s)" "fst t = h'" by blast+
      from timer_eq [OF t(2) timers_okD(1) [OF consistentD(2) [OF fd(1)] t(1)] refl refl] t(2)
      obtain due' where teq: "t = (h', due', RejectTimeout (timer_ident t) (timer_promise t) h')"
        by auto
      have ft: "fire_timer h' s =
          (if due' \<le> clock s
           then settle (timer_promise t) (Rejected MESSAGE_TIMEOUT_REASON)
                  (emitter_off (timer_ident t) (CallbackReceived (timer_promise t) (Some h'))
                     (s\<lparr>timers := filter (\<lambda>t. fst t \<noteq> h') (timers s)\<rparr>))
           else s)"
        using Some by (subst (asm) teq) (simp add: fire_timer_def)
      have "(h, due, RejectTimeout ident p h) \<in> set (timers (fire_timer h' s))"
        "CallbackReceived p (Some h) \<in> set (emitter (fire_timer h' s) ident)"
        using fd(2,3) n unfolding ft by auto
      with c' TimerFires show ?thesis by (simp add: in_flight_def)
    qed
  qed
qed

lemma in_flight_run:
  assumes "in_flight s p h ident due" "\<forall>ev \<in> set evs. quiet ident h ev"
  shows "in_flight (run evs s) p h ident due"
  using assms unfolding run_def
  by (induction evs arbitrary: s) (simp_all add: in_flight_step)

subsection \<open>The timer of the call, and its reply\<close>

lemma distinct_fst_eq:
  "distinct (map fst ts) \<Longrightarrow> t \<in> set ts \<Longrightarrow> t' \<in> set ts \<Longrightarrow> fst t = fst t' \<Longrightarrow> t = t'"
  by (metis eq_key_imp_eq_value prod.collapse)

text \<open>When the timer of a call in flight comes due, the call's promise is rejected with the
  message-timeout reason and its waiter is no longer registered, under any id.\<close>

lemma in_flight_timeout:
  assumes f: "in_flight s p h ident due" and d: "due \<le> clock s"
  shows "fire_timer h s =
      settle p (Rejected MESSAGE_TIMEOUT_REASON)
        (emitter_off ident (CallbackReceived p (Some h))
          (s\<lparr>timers := filter (\<lambda>t. fst t \<noteq> h) (timers s)\<rparr>))"
    and "promises (fire_timer h s) p = Rejected MESSAGE_TIMEOUT_REASON"
    and "listener_promise l = p \<Longrightarrow> l \<notin> set (emitter (fire_timer h s) ev)"
    and "t \<in> set (timers (fire_timer h s)) \<Longrightarrow> timer_promise t \<noteq> p"
proof -
  note fd = in_flightD [OF f]
  note c = consistentD [OF fd(1)]
  obtain t0 where t0: "find (\<lambda>t. fst t = h) (timers s) = Some t0"
    using fd(2) by (cases "find (\<lambda>t. fst t = h) (timers s)") (auto simp: find_handle_None)
  from find_handle_Some [OF t0] have "t0 \<in> set (timers s)" "fst t0 = h" by blast+
  from distinct_fst_eq [OF timers_ok_distinct [OF c(2)] this(1) fd(2)] this(2)
  have "t0 = (h, due, RejectTimeout ident p h)" by simp
  with t0 d show eq: "fire_timer h s =
      settle p (Rejected MESSAGE_TIMEOUT_REASON)
        (emitter_off ident (CallbackReceived p (Some h))
          (s\<lparr>timers := filter (\<lambda>t. fst t \<noteq> h) (timers s)\<rparr>))"
    by (simp add: fire_timer_def)
  show "promises (fire_timer h s) p = Rejected MESSAGE_TIMEOUT_REASON"
    unfolding eq using fd(4) by simp
  show "l \<notin> set (emitter (fire_timer h s) ev)" if lp: "listener_promise l = p"
  proof
    assume "l \<in> set (emitter (fire_timer h s) ev)"
    then have m: "l \<in> set (emitter s ev)"
      and n: "\<not> (ev = ident \<and> l = CallbackReceived p (Some h))"
      unfolding eq by (auto split: if_splits)
    from linkedD(1,2) [OF c(4) fd(2) m] lp
    have "listener_handle l = Some h" "ev = ident" by simp_all
    with listener_eq [OF lp this(1)] n show False by simp
  qed
  show "timer_promise t \<noteq> p" if "t \<in> set (timers (fire_timer h s))"
  proof
    assume e: "timer_promise t = p"
    from that have m: "t \<in> set (timers s)" "fst t \<noteq> h" unfolding eq by simp_all
    from timers_ok_uniq [OF c(2) m(1) fd(2)] e m(2) show False by simp
  qed
qed

text \<open>When the reply for the id of a call in flight arrives, the call's promise is
  fulfilled with the result and its timer is cleared.\<close>

lemma fold_callbackReceived_fulfils:
  assumes "promises s p = Pending" "p < npromises s" "CallbackReceived p ho \<in> set ls"
    "\<forall>l \<in> set ls. listener_promise l = p \<longrightarrow> l = CallbackReceived p ho"
  shows "promises (fold (\<lambda>l. callbackReceived l result) ls s) p = Fulfilled result"
  using assms
proof (induction ls arbitrary: s)
  case Nil
  then show ?case by simp
next
  case (Cons l ls)
  let ?s1 = "callbackReceived l result s"
  show ?case
  proof (cases "l = CallbackReceived p ho")
    case True
    with Cons.prems(1,2) have s1: "promises ?s1 p = Fulfilled result" "p < npromises ?s1"
      by simp_all
    have "keeps p ?s1 (fold (\<lambda>l. callbackReceived l result) ls ?s1)"
      by (rule keeps_fold_callbackReceived)
    with s1 have "promises (fold (\<lambda>l. callbackReceived l result) ls ?s1) p = Fulfilled result"
      unfolding keeps_def by simp
    then show ?thesis by simp
  next
    case False
    obtain x ho' where l: "l = CallbackReceived x ho'" by (cases l)
    with False Cons.prems(4) have "x \<noteq> p" by auto
    with Cons.prems(1,2) l have "promises ?s1 p = Pending" "p < npromises ?s1"
      by (simp_all add: settle_changed)
    moreover from False Cons.prems(3) have "CallbackReceived p ho \<in> set ls" by auto
    moreover from Cons.prems(4)
    have "\<forall>l \<in> set ls. listener_promise l = p \<longrightarrow> l = CallbackReceived p ho" by auto
    ultimately have "promises (fold (\<lambda>l. callbackReceived l result) ls ?s1) p = Fulfilled result"
      by (rule Cons.IH)
    then show ?thesis by simp
  qed
qed

lemma fold_callbackReceived_timers_subset:
  "set (timers (fold (\<lambda>l. callbackReceived l result) ls s)) \<subseteq> set (timers s)"
proof (induction ls arbitrary: s)
  case Nil
  show ?case by simp
next
  case (Cons l ls)
  obtain x ho where l: "l = CallbackReceived x ho" by (cases l)
  have "set (timers (callbackReceived l result s)) \<subseteq> set (timers s)"
    unfolding l by (cases ho) auto
  with Cons [of "callbackReceived l result s"] show ?case by auto
qed

lemma fold_callbackReceived_clears:
  assumes "CallbackReceived p (Some h) \<in> set ls"
    "t \<in> set (timers (fold (\<lambda>l. callbackReceived l result) ls s))"
  shows "fst t \<noteq> h"
  using assms
proof (induction ls arbitrary: s)
  case Nil
  then show ?case by simp
next
  case (Cons l ls)
  show ?case
  proof (cases "l = CallbackReceived p (Some h)")
    case True
    from Cons.prems(2) fold_callbackReceived_timers_subset [of result ls "callbackReceived l result s"]
    have "t \<in> set (timers (callbackReceived l result s))" by auto
    with True show ?thesis by simp
  next
    case False
    with Cons.prems(1) have "CallbackReceived p (Some h) \<in> set ls" by auto
    with Cons.IH [of "callbackReceived l result s"] Cons.prems(2) show ?thesis by simp
  qed
qed

lemma in_flight_reply:
  assumes f: "in_flight s p h ident due"
  shows "promises (callbackGlobal_fn ident result s) p = Fulfilled result"
    and "t \<in> set (timers (callbackGlobal_fn ident result s)) \<Longrightarrow> fst t \<noteq> h"
proof -
  note fd = in_flightD [OF f]
  note c = consistentD [OF fd(1)]
  have "\<forall>l \<in> set (emitter s ident). listener_promise l = p \<longrightarrow> l = CallbackReceived p (Some h)"
  proof (intro ballI impI)
    fix l assume l: "l \<in> set (emitter s ident)" and lp: "listener_promise l = p"
    from linkedD(1) [OF c(4) fd(2) l] lp have "listener_handle l = Some h" by simp
    with lp show "l = CallbackReceived p (Some h)" by (rule listener_eq)
  qed
  with fd(3,4,5) show "promises (callbackGlobal_fn ident result s) p = Fulfilled result"
    unfolding callbackGlobal_fn_def emitter_trigger_def
    by (intro fold_callbackReceived_fulfils)
  show "fst t \<noteq> h" if "t \<in> set (timers (callbackGlobal_fn ident result s))"
    using fold_callbackReceived_clears [OF fd(3), of t result s] that
    by (simp add: callbackGlobal_fn_def emitter_trigger_def)
qed

subsection \<open>Where calls are issued\<close>

lemma next_id_fields: "clock s' = clock s \<Longrightarrow> idGen s' = idGen s \<Longrightarrow> next_id s' = next_id s"
  by (simp add: next_id_def)

lemma consistent_pop:
  assumes c: "consistent s" and m: "microtasks s = j # js"
  shows "consistent (s\<lparr>microtasks := js\<rparr>)" "free_promise (s\<lparr>microtasks := js\<rparr>) (job_target j)"
proof -
  let ?s0 = "s\<lparr>microtasks := js\<rparr>"
  note cs = consistentD [OF c]
  show "consistent ?s0"
  proof (rule consistent_shrink [OF c])
    fix t assume "t \<in> set (timers ?s0)"
    then show "promises ?s0 (timer_promise t) = Pending"
      using timers_okD(4) [OF cs(2)] by simp
  next
    fix ev l e assume "l \<in> set (emitter ?s0 ev)"
    then show "promises ?s0 (listener_promise l) \<noteq> Rejected e"
      using listeners_okD(2) [OF cs(3)] by simp
  qed (auto simp: m timers_ok_distinct [OF cs(2)])
  have "free_promise s (job_target j)" by (rule refs_okD(2) [OF cs(5)]) (simp add: m)
  then show "free_promise ?s0 (job_target j)"
    by (subst free_promise_fields [of _ s]) simp_all
qed

lemma in_flight_sendHandshake:
  assumes c: "consistent s" and u: "\<not> connected s" "\<not> connecting s"
    and t: "0 < handshakeTimeout s"
  shows "in_flight (step CallSendHandshake s) (npromises s) (ntimers s) (next_id s)
           (clock s + handshakeTimeout s)"
proof -
  let ?s0 = "s\<lparr>connecting := True\<rparr>"
  let ?s1 = "snd (priv_sendMessage HANDSHAKE_ACTION (JStr (hm s)) (handshakeTimeout s) ?s0)"
  let ?s3 = "snd (promise_then (npromises s + 1) None (Some HandshakeFailed)
               (snd (promise_then (npromises s) (Some SetConnected) None ?s1)))"
  have c0: "consistent ?s0" using c by (subst consistent_fields [of _ s]) simp_all
  have n: "next_id ?s0 = next_id s" by (rule next_id_fields) simp_all
  from in_flight_priv_sendMessage [OF c0 t, of HANDSHAKE_ACTION "JStr (hm s)"]
  have f1: "in_flight ?s1 (npromises s) (ntimers s) (next_id s) (clock s + handshakeTimeout s)"
    by (simp add: n)
  have eq: "step CallSendHandshake s = ?s3\<lparr>whenReady := Some (npromises s + 2)\<rparr>"
    by (simp add: sendHandshake_unconnected_eq [OF u])
  have "grows ?s1 (step CallSendHandshake s)" unfolding eq by (rule grows_fields) simp_all
  with f1 consistent_step [OF c, of CallSendHandshake] show ?thesis
    by (rule in_flight_grows)
qed

lemma in_flight_issue:
  assumes c: "consistent s" and t: "0 < timeout"
    and m: "microtasks s =
      ReactionJob (Then (Some (IssueMessage action data timeout)) onRejected q) (Fulfilled v) # js"
  shows "in_flight (step Microtask s) (npromises s) (ntimers s) (next_id s) (clock s + timeout)"
proof -
  let ?s0 = "s\<lparr>microtasks := js\<rparr>"
  let ?s1 = "snd (priv_sendMessage action data timeout ?s0)"
  have n: "next_id ?s0 = next_id s" by (rule next_id_fields) simp_all
  from in_flight_priv_sendMessage [OF consistent_pop(1) [OF c m] t, of action data]
  have f1: "in_flight ?s1 (npromises s) (ntimers s) (next_id s) (clock s + timeout)"
    by (simp add: n)
  have eq: "step Microtask s = enqueue (ThenableJob q (npromises s)) ?s1"
    by (simp add: microtask_Cons [OF m] split_def Let_def)
  have "grows ?s1 (step Microtask s)" unfolding eq by (rule grows_fields) simp_all
  with f1 consistent_step [OF c, of Microtask] show ?thesis
    by (rule in_flight_grows)
qed

section \<open>Outbound calls settle once\<close>

text \<open>
  On a channel whose transport target was located, every call of
  \<open>_sendMessage\<close> with a timeout above zero (issued directly, by \<open>sendHandshake\<close>, or by the
  microtask of a \<open>sendMessage\<close> whose handshake succeeded) is in flight: its timer is armed and
  its waiter registered. A call in flight stays in flight, its deferred pending, under every
  sequence of events that has neither a reply for its id nor its timer. When its timer comes
  due the deferred is rejected with the message-acknowledgment-timeout reason and the waiter is
  gone: whatever happens afterwards, a late reply included, the deferred stays rejected with
  that reason, and a reply for an id with no waiter left changes nothing at all. When the
  reply comes first the deferred is fulfilled with the result, the timer is cleared, and the
  deferred stays fulfilled. In every reachable state the promise of an armed timer is
  pending and the promise of a registered waiter is not rejected, so the timer function
  never rejects a deferred that was resolved and the waiter never resolves one that was
  rejected.
\<close>

theorem outbound_call_settles_once:
  "(consistent s \<and> 0 < timeout \<longrightarrow>
      fst (priv_sendMessage action data timeout s) = npromises s
      \<and> in_flight (snd (priv_sendMessage action data timeout s))
          (npromises s) (ntimers s) (next_id s) (clock s + timeout))
   \<and> (consistent s \<and> \<not> connected s \<and> \<not> connecting s \<and> 0 < handshakeTimeout s \<longrightarrow>
      in_flight (step CallSendHandshake s) (npromises s) (ntimers s) (next_id s)
        (clock s + handshakeTimeout s))
   \<and> (consistent s \<and> 0 < timeout
        \<and> microtasks s = ReactionJob (Then (Some (IssueMessage action data timeout)) onRejected q)
                            (Fulfilled v) # js \<longrightarrow>
      in_flight (step Microtask s) (npromises s) (ntimers s) (next_id s) (clock s + timeout))
   \<and> (in_flight s p h ident due \<and> (\<forall>ev \<in> set evs. quiet ident h ev) \<longrightarrow>
      in_flight (run evs s) p h ident due \<and> promises (run evs s) p = Pending)
   \<and> (in_flight s p h ident due \<and> due \<le> clock s \<longrightarrow>
      promises (step (TimerFires h) s) p = Rejected MESSAGE_TIMEOUT_REASON
      \<and> (\<forall>ev l. l \<in> set (emitter (step (TimerFires h) s) ev) \<longrightarrow> listener_promise l \<noteq> p)
      \<and> promises (run evs' (step (TimerFires h) s)) p = Rejected MESSAGE_TIMEOUT_REASON
      \<and> (emitter (step (TimerFires h) s) ident = [] \<longrightarrow>
           step (InvokeCallback ident result) (step (TimerFires h) s) = step (TimerFires h) s))
   \<and> (in_flight s p h ident due \<longrightarrow>
      promises (step (InvokeCallback ident result) s) p = Fulfilled result
      \<and> (\<forall>t \<in> set (timers (step (InvokeCallback ident result) s)). fst t \<noteq> h)
      \<and> promises (run evs' (step (InvokeCallback ident result) s)) p = Fulfilled result)
   \<and> (consistent s \<longrightarrow>
      consistent (run evs s)
      \<and> (\<forall>t \<in> set (timers (run evs s)). promises (run evs s) (timer_promise t) = Pending)
      \<and> (\<forall>ev. \<forall>l \<in> set (emitter (run evs s) ev). \<forall>e.
            promises (run evs s) (listener_promise l) \<noteq> Rejected e))"
proof (intro conjI; rule impI)
  assume "consistent s \<and> 0 < timeout"
  then show "fst (priv_sendMessage action data timeout s) = npromises s
      \<and> in_flight (snd (priv_sendMessage action data timeout s))
          (npromises s) (ntimers s) (next_id s) (clock s + timeout)"
    by (simp add: in_flight_priv_sendMessage)
next
  assume "consistent s \<and> \<not> connected s \<and> \<not> connecting s \<and> 0 < handshakeTimeout s"
  then show "in_flight (step CallSendHandshake s) (npromises s) (ntimers s) (next_id s)
        (clock s + handshakeTimeout s)"
    by (intro in_flight_sendHandshake) blast+
next
  assume "consistent s \<and> 0 < timeout
        \<and> microtasks s = ReactionJob (Then (Some (IssueMessage action data timeout)) onRejected q)
                            (Fulfilled v) # js"
  then show "in_flight (step Microtask s) (npromises s) (ntimers s) (next_id s) (clock s + timeout)"
    by (intro in_flight_issue [where onRejected = onRejected and q = q and v = v and js = js
          and action = action and data = data]) blast+
next
  assume a: "in_flight s p h ident due \<and> (\<forall>ev \<in> set evs. quiet ident h ev)"
  then have "in_flight (run evs s) p h ident due" by (intro in_flight_run) blast+
  then show "in_flight (run evs s) p h ident due \<and> promises (run evs s) p = Pending"
    by (simp add: in_flightD(4))
next
  assume a: "in_flight s p h ident due \<and> due \<le> clock s"
  then have f: "in_flight s p h ident due" and d: "due \<le> clock s" by blast+
  note r = in_flight_timeout [OF f d]
  let ?s1 = "step (TimerFires h) s"
  have s1: "promises ?s1 p = Rejected MESSAGE_TIMEOUT_REASON" using r(2) by simp
  have "p < npromises ?s1"
    using keeps_step [of p s "TimerFires h"] in_flightD(5) [OF f] by (simp add: keeps_def)
  with s1 have "promises (run evs' ?s1) p = Rejected MESSAGE_TIMEOUT_REASON"
    by (simp add: settled_stays)
  moreover have "\<forall>ev l. l \<in> set (emitter ?s1 ev) \<longrightarrow> listener_promise l \<noteq> p"
    using r(3) by auto
  moreover have "emitter ?s1 ident = [] \<longrightarrow> step (InvokeCallback ident result) ?s1 = ?s1"
    by (simp add: callbackGlobal_fn_def emitter_trigger_def)
  ultimately show "promises ?s1 p = Rejected MESSAGE_TIMEOUT_REASON
      \<and> (\<forall>ev l. l \<in> set (emitter ?s1 ev) \<longrightarrow> listener_promise l \<noteq> p)
      \<and> promises (run evs' ?s1) p = Rejected MESSAGE_TIMEOUT_REASON
      \<and> (emitter ?s1 ident = [] \<longrightarrow> step (InvokeCallback ident result) ?s1 = ?s1)"
    using s1 by blast
next
  assume f: "in_flight s p h ident due"
  note r = in_flight_reply [OF f, where result = result]
  let ?s1 = "step (InvokeCallback ident result) s"
  have s1: "promises ?s1 p = Fulfilled result" using r(1) by simp
  have "p < npromises ?s1"
    using keeps_step [of p s "InvokeCallback ident result"] in_flightD(5) [OF f]
    by (simp add: keeps_def)
  with s1 have "promises (run evs' ?s1) p = Fulfilled result" by (simp add: settled_stays)
  moreover have "\<forall>t \<in> set (timers ?s1). fst t \<noteq> h" using r(2) by simp
  ultimately show "promises ?s1 p = Fulfilled result
      \<and> (\<forall>t \<in> set (timers ?s1). fst t \<noteq> h)
      \<and> promises (run evs' ?s1) p = Fulfilled result"
    using s1 by blast
next
  assume c: "consistent s"
  have c': "consistent (run evs s)" by (rule consistent_run [OF c])
  note cs = consistentD [OF c']
  from c' timers_okD(4) [OF cs(2)] listeners_okD(2) [OF cs(3)]
  show "consistent (run evs s)
      \<and> (\<forall>t \<in> set (timers (run evs s)). promises (run evs s) (timer_promise t) = Pending)
      \<and> (\<forall>ev. \<forall>l \<in> set (emitter (run evs s) ev). \<forall>e.
            promises (run evs s) (listener_promise l) \<noteq> Rejected e)"
    by blast
qed

text \<open>
  Claim C1: a \<open>_sendMessage\<close> call with a timeout \<open>T > 0\<close> that gets no reply within
  \<open>T\<close> is rejected with the message-acknowledgment-timeout failure. On the channel the
  constructor returns when \<open>messageHandlers\<close> has no handler of the name, whose \<open>parent\<close>
  is \<open>undefined\<close>, \<open>postMessage\<close> throws inside the executor of the promise: the deferred
  of \<open>_sendMessage('echo', 1, 3000)\<close> is rejected at once with the \<open>TypeError\<close>, nothing
  is sent, and when the timer fires 3000 ms later with no reply the deferred still carries
  the \<open>TypeError\<close>, not the timeout reason.
\<close>

theorem outbound_call_unlocated_rejected_at_once:
  "isl (constructor (default_options\<lparr>autoHandshake := False\<rparr>) unlocated_window 1000) = False
   \<and> parent unlocated_channel = None
   \<and> fst (priv_sendMessage ''echo'' (JNum 1) 3000 unlocated_channel) = 0
   \<and> promises (snd (priv_sendMessage ''echo'' (JNum 1) 3000 unlocated_channel)) 0
        = Rejected (JError ''TypeError'')
   \<and> sent (snd (priv_sendMessage ''echo'' (JNum 1) 3000 unlocated_channel)) = []
   \<and> timers (snd (priv_sendMessage ''echo'' (JNum 1) 3000 unlocated_channel))
        = [(0, 4000, RejectTimeout ''01000'' 0 0)]
   \<and> promises (run [Tick 3000, TimerFires 0]
                 (snd (priv_sendMessage ''echo'' (JNum 1) 3000 unlocated_channel))) 0
        = Rejected (JError ''TypeError'')
   \<and> sent (run [Tick 3000, TimerFires 0]
                 (snd (priv_sendMessage ''echo'' (JNum 1) 3000 unlocated_channel))) = []
   \<and> JError ''TypeError'' \<noteq> MESSAGE_TIMEOUT_REASON"
proof -
  define s1 where "s1 = snd (priv_sendMessage ''echo'' (JNum 1) 3000 unlocated_channel)"
  have f: "promises s1 0 = Rejected (JError ''TypeError'')" "sent s1 = []"
    "timers s1 = [(0, 4000, RejectTimeout ''01000'' 0 0)]" "npromises s1 = 1" "parent s1 = None"
    by (simp_all add: s1_def)
  have "promises (run [Tick 3000, TimerFires 0] s1) 0 = promises s1 0"
    by (rule settled_stays) (simp_all add: f)
  moreover have "sent (run [Tick 3000, TimerFires 0] s1) = sent s1"
    using unlocated_run [OF f(5)] by simp
  ultimately show ?thesis
    using f unlocated_constructed
    by (simp add: s1_def [symmetric] MESSAGE_TIMEOUT_REASON_def)
qed

section \<open>The handshake\<close>

text \<open>
  \<open>sendHandshake()\<close> on a channel that is neither connected nor connecting
  (and whose transport target was located) sends exactly one handshake envelope and returns a
  deferred; called again before completion it returns the same deferred and leaves the
  channel, and so the transport log, as it is. Once the reply to the handshake has been
  processed the deferred is fulfilled, the channel is connected, and every further call
  throws the protocol-misuse error instead of returning a deferred.
\<close>

theorem sendHandshake_contract:
  "(\<not> connected s \<and> \<not> connecting s \<and> parent s \<noteq> None \<longrightarrow>
      (\<exists>r s1. sendHandshake s = Inr (Some r, s1)
         \<and> sent s1 = sent s @ [request_payload (cb s) (next_id s) HANDSHAKE_ACTION (JStr (hm s))]
         \<and> sendHandshake s1 = Inr (Some r, s1)))
   \<and> (\<not> connected s \<and> connecting s \<longrightarrow> sendHandshake s = Inr (whenReady s, s))
   \<and> (connected s \<longrightarrow> sendHandshake s = Inl HANDSHAKE_COMPLETED_ERROR)
   \<and> (\<not> connected s \<and> \<not> connecting s \<and> parent s \<noteq> None \<and> microtasks s = []
        \<and> emitter s (next_id s) = [] \<longrightarrow>
      whenReady (run [CallSendHandshake, InvokeCallback (next_id s) result, Microtask, Microtask] s)
        = Some (npromises s + 2)
      \<and> promises (run [CallSendHandshake, InvokeCallback (next_id s) result, Microtask, Microtask] s)
          (npromises s + 2) = Fulfilled JUndefined
      \<and> sendHandshake
          (run [CallSendHandshake, InvokeCallback (next_id s) result, Microtask, Microtask] s)
        = Inl HANDSHAKE_COMPLETED_ERROR)"
proof (intro conjI impI)
  assume u: "\<not> connected s \<and> \<not> connecting s \<and> parent s \<noteq> None"
  with sendHandshake_unconnected [of s] obtain s1 where
    s1: "sendHandshake s = Inr (Some (npromises s + 2), s1)" "connecting s1" "\<not> connected s1"
      "whenReady s1 = Some (npromises s + 2)"
      "sent s1 = sent s @ [request_payload (cb s) (next_id s) HANDSHAKE_ACTION (JStr (hm s))]"
    by auto
  from s1 have "sendHandshake s1 = Inr (Some (npromises s + 2), s1)"
    by (simp add: sendHandshake_connecting)
  with s1 show "\<exists>r s1. sendHandshake s = Inr (Some r, s1)
         \<and> sent s1 = sent s @ [request_payload (cb s) (next_id s) HANDSHAKE_ACTION (JStr (hm s))]
         \<and> sendHandshake s1 = Inr (Some r, s1)"
    by blast
next
  assume "\<not> connected s \<and> connecting s"
  then show "sendHandshake s = Inr (whenReady s, s)" by (simp add: sendHandshake_connecting)
next
  assume "connected s"
  then show "sendHandshake s = Inl HANDSHAKE_COMPLETED_ERROR" by (rule sendHandshake_connected)
next
  assume u: "\<not> connected s \<and> \<not> connecting s \<and> parent s \<noteq> None \<and> microtasks s = []
        \<and> emitter s (next_id s) = []"
  define s4 where "s4 = run [CallSendHandshake, InvokeCallback (next_id s) result, Microtask, Microtask] s"
  define ho where "ho = (if 0 < handshakeTimeout s then Some (ntimers s) else None)"
  from u sendHandshake_unconnected [of s] obtain s1 where
    s1: "sendHandshake s = Inr (Some (npromises s + 2), s1)"
      "whenReady s1 = Some (npromises s + 2)"
      "promises s1 = (promises s)(npromises s := Pending, npromises s + 1 := Pending,
          npromises s + 2 := Pending)"
      "reactions s1 = (reactions s)(npromises s := [Then (Some SetConnected) None (npromises s + 1)],
          npromises s + 1 := [Then None (Some HandshakeFailed) (npromises s + 2)],
          npromises s + 2 := [])"
      "microtasks s1 = microtasks s"
      "emitter s1 = (emitter s)(next_id s := emitter s (next_id s) @ [CallbackReceived (npromises s) ho])"
    unfolding ho_def by auto
  have run: "s4 = run [InvokeCallback (next_id s) result, Microtask, Microtask] s1"
    by (simp add: s4_def run_def s1)
  from u s1 have pre: "promises s1 (npromises s) = Pending" "promises s1 (npromises s + 1) = Pending"
    "promises s1 (npromises s + 2) = Pending"
    "reactions s1 (npromises s) = [Then (Some SetConnected) None (npromises s + 1)]"
    "reactions s1 (npromises s + 1) = [Then None (Some HandshakeFailed) (npromises s + 2)]"
    "emitter s1 (next_id s) = [CallbackReceived (npromises s) ho]" "microtasks s1 = []"
    by simp_all
  have r: "connected s4" "whenReady s4 = whenReady s1"
    "promises s4 = (promises s1)(npromises s := Fulfilled result,
        npromises s + 1 := Fulfilled JUndefined, npromises s + 2 := Fulfilled JUndefined)"
    by (rule attempt_succeeds [OF pre(1-3) _ _ _ pre(4-7) run]; simp)+
  show "whenReady s4 = Some (npromises s + 2)" by (simp add: r s1)
  show "promises s4 (npromises s + 2) = Fulfilled JUndefined" by (simp add: r)
  show "sendHandshake s4 = Inl HANDSHAKE_COMPLETED_ERROR" by (simp add: r sendHandshake_connected)
qed

theorem sendHandshake_contract_witness:
  "(\<exists>r s1. sendHandshake example_channel = Inr (Some r, s1)
      \<and> sent s1 = [request_payload ''wkPostMessengerCallback'' ''01000'' HANDSHAKE_ACTION
                     (JStr ''wkPostMessengerHandleMessage'')]
      \<and> sendHandshake s1 = Inr (Some r, s1))
   \<and> sendHandshake (run [CallSendHandshake] example_channel)
       = Inr (Some 2, run [CallSendHandshake] example_channel)
   \<and> promises (run [CallSendHandshake, InvokeCallback ''01000'' JNull, Microtask, Microtask]
        example_channel) 2 = Fulfilled JUndefined
   \<and> sendHandshake (run [CallSendHandshake, InvokeCallback ''01000'' JNull, Microtask, Microtask]
        example_channel) = Inl HANDSHAKE_COMPLETED_ERROR"
proof -
  define s1 where "s1 = run [CallSendHandshake] example_channel"
  from sendHandshake_unconnected [of example_channel] obtain s' where
    s': "sendHandshake example_channel = Inr (Some 2, s')" "connecting s'" "\<not> connected s'"
      "whenReady s' = Some 2"
    by auto
  then have s1: "connecting s1" "\<not> connected s1" "whenReady s1 = Some 2"
    by (simp_all add: s1_def run_def)
  from sendHandshake_contract [of s1] s1
  have "sendHandshake s1 = Inr (Some 2, s1)" by simp
  with sendHandshake_contract [of example_channel JNull] show ?thesis
    by (simp add: s1_def numeral_2_eq_2)
qed

text \<open>
  Claim C4: two \<open>sendHandshake()\<close> calls before completion give both callers the same
  deferred and send exactly one handshake envelope. On the channel the constructor returns
  when \<open>messageHandlers\<close> has no handler of the name, both calls return the same deferred
  and \<open>postMessage\<close> throws inside the executor of the first: no handshake envelope is
  sent, by these calls or by any event after them. The deferred is rejected with the
  handshake-timeout reason four microtasks later, and the handshake never completes.
\<close>

theorem sendHandshake_unlocated_sends_nothing:
  "isl (constructor (default_options\<lparr>autoHandshake := False\<rparr>) unlocated_window 1000) = False
   \<and> parent unlocated_channel = None
   \<and> sendHandshake unlocated_channel = Inr (Some 2, run [CallSendHandshake] unlocated_channel)
   \<and> sendHandshake (run [CallSendHandshake] unlocated_channel)
        = Inr (Some 2, run [CallSendHandshake] unlocated_channel)
   \<and> sent (run [CallSendHandshake, CallSendHandshake] unlocated_channel) = []
   \<and> promises (run [CallSendHandshake, CallSendHandshake,
                     Microtask, Microtask, Microtask, Microtask] unlocated_channel) 2
        = Rejected HANDSHAKE_TIMEOUT_REASON
   \<and> connected (run [CallSendHandshake, CallSendHandshake,
                      Microtask, Microtask, Microtask, Microtask] unlocated_channel) = False
   \<and> sent (run [CallSendHandshake, CallSendHandshake,
                 Microtask, Microtask, Microtask, Microtask] unlocated_channel) = []"
proof -
  define s1 where "s1 = run [CallSendHandshake] unlocated_channel"
  define s5 where "s5 = run [Microtask, Microtask, Microtask, Microtask] s1"
  note f = unlocated_handshake_called [folded s1_def]
  have again: "sendHandshake s1 = Inr (Some 2, s1)"
    using f by (simp add: sendHandshake_connecting)
  have two: "run [CallSendHandshake, CallSendHandshake] unlocated_channel = s1"
    using again f(1) by (simp add: run_def)
  have six: "run [CallSendHandshake, CallSendHandshake,
                  Microtask, Microtask, Microtask, Microtask] unlocated_channel = s5"
    using again f(1) by (simp add: run_def s5_def)
  have pre: "promises s1 1 = Pending" "promises s1 2 = Pending"
    "(1::nat) < npromises s1" "2 < npromises s1"
    "reactions s1 1 = [Then None (Some HandshakeFailed) 2]"
    by (simp_all add: f)
  note r = attempt_throws [where s = s1 and q = 1 and r = 2, OF pre(1,2) _ pre(3-5) f(8) s5_def]
  have f5: "connected s5 = connected s1" "sent s5 = sent s1"
    "promises s5 = (promises s1)(1 := Rejected (JError ''TypeError''),
        2 := Rejected HANDSHAKE_TIMEOUT_REASON, npromises s1 := Rejected HANDSHAKE_TIMEOUT_REASON)"
    by (rule r; simp)+
  have "promises s5 2 = Rejected HANDSHAKE_TIMEOUT_REASON" "\<not> connected s5" "sent s5 = []"
    by (simp_all add: f5 f)
  with f again unlocated_constructed show ?thesis
    unfolding two six s1_def [symmetric] by simp
qed


section \<open>The connection state\<close>

text \<open>
  Claim C5, as stated, fails: "the connection state never regresses, also under a handshake
  timeout". On the example channel, \<open>sendHandshake()\<close> makes the state connecting; after
  the 3000 ms of the handshake timeout the timer and the microtasks that follow it make it
  unconnected again.
\<close>

theorem connection_state_regresses:
  "phase (run [CallSendHandshake] example_channel) = Connecting
   \<and> phase (run [CallSendHandshake, Tick 3000, TimerFires 0,
                  Microtask, Microtask, Microtask, Microtask] example_channel) = Unconnected"
proof -
  define s1 where "s1 = run [CallSendHandshake] example_channel"
  define s2 where "s2 = step (Tick 3000) s1"
  define s7 where "s7 = run [TimerFires 0, Microtask, Microtask, Microtask, Microtask] s2"
  note f = example_handshake_sent [folded s1_def]
  have pre: "promises s2 0 = Pending" "promises s2 1 = Pending" "promises s2 2 = Pending"
    "(0::nat) < npromises s2" "1 < npromises s2" "2 < npromises s2"
    "reactions s2 0 = [Then (Some SetConnected) None 1]"
    "reactions s2 1 = [Then None (Some HandshakeFailed) 2]"
    "find (\<lambda>t. fst t = 0) (timers s2) = Some (0, 4000, RejectTimeout ''01000'' 0 0)"
    "4000 \<le> clock s2" "microtasks s2 = []" "\<not> connected s2"
    by (simp_all add: s2_def f)
  have "\<not> connecting s7" "connected s7 = connected s2"
    by (rule attempt_fails [OF pre(1-3) _ _ _ pre(4-11) s7_def]; simp)+
  with pre(12) have "phase s7 = Unconnected" by (simp add: phase_def)
  moreover have "phase s1 = Connecting" by (simp add: phase_def f)
  ultimately show ?thesis by (simp add: s7_def s2_def s1_def run_def)
qed

text \<open>
  Claim C5, amended. Once the channel is connected it stays connected under every sequence
  of events. The connection state moves backwards in one way only: from connecting to
  unconnected, in the microtask that runs the \<open>catch\<close> function of the handshake (which is
  what follows a handshake timeout).
\<close>

theorem connection_state_moves:
  "(connected s \<longrightarrow> connected (run evs s))
   \<and> (phase_rank (phase (step ev s)) < phase_rank (phase s) \<longrightarrow>
        phase s = Connecting \<and> phase (step ev s) = Unconnected \<and> ev = Microtask
        \<and> microtasks s \<noteq> [] \<and> job_callback (hd (microtasks s)) = Some HandshakeFailed)"
proof (rule conjI; rule impI)
  assume "connected s"
  then show "connected (run evs s)" by (rule run_connected)
next
  assume less: "phase_rank (phase (step ev s)) < phase_rank (phase s)"
  have nc: "\<not> connected s"
  proof
    assume "connected s"
    then have "connected (step ev s)" by (rule step_connected)
    with \<open>connected s\<close> less show False by (simp add: phase_def)
  qed
  with less have c: "connecting s" "\<not> connecting (step ev s)" "\<not> connected (step ev s)"
    by (auto simp: phase_def split: if_splits)
  from step_connecting_kept [OF c(1,2)] nc c
  show "phase s = Connecting \<and> phase (step ev s) = Unconnected \<and> ev = Microtask
        \<and> microtasks s \<noteq> [] \<and> job_callback (hd (microtasks s)) = Some HandshakeFailed"
    by (simp add: phase_def)
qed

theorem connection_state_moves_witness:
  "connected (run [CallSendHandshake, InvokeCallback ''01000'' JNull, Microtask, Microtask]
      example_channel)
   \<and> connected (run [CallSendHandshake, Tick 5000, TimerFires 0, Microtask]
        (run [CallSendHandshake, InvokeCallback ''01000'' JNull, Microtask, Microtask]
           example_channel))
   \<and> phase_rank (phase (step Microtask
        (run [CallSendHandshake, Tick 3000, TimerFires 0, Microtask] example_channel)))
      < phase_rank (phase (run [CallSendHandshake, Tick 3000, TimerFires 0, Microtask]
          example_channel))
   \<and> phase (run [CallSendHandshake, Tick 3000, TimerFires 0, Microtask] example_channel)
        = Connecting
   \<and> job_callback (hd (microtasks
        (run [CallSendHandshake, Tick 3000, TimerFires 0, Microtask] example_channel)))
        = Some HandshakeFailed"
proof -
  define s1 where "s1 = run [CallSendHandshake] example_channel"
  note f = example_handshake_sent [folded s1_def]
  \<comment> \<open>the acknowledged handshake\<close>
  define s4 where "s4 = run [InvokeCallback ''01000'' JNull, Microtask, Microtask] s1"
  have "connected s4"
    by (rule attempt_succeeds(1) [where s = s1 and p = 0 and q = 1 and r = 2
          and ident = "''01000''" and ho = "Some 0" and result = JNull, OF _ _ _ _ _ _ _ _ _ _ s4_def])
       (simp_all add: f)
  then have c4: "connected (run [CallSendHandshake, InvokeCallback ''01000'' JNull, Microtask,
      Microtask] example_channel)"
    by (simp add: s4_def s1_def run_def)
  \<comment> \<open>the handshake that times out\<close>
  define s2 where "s2 = step (Tick 3000) s1"
  define s3 where "s3 = run [TimerFires 0, Microtask] s2"
  have m: "connected s3 = connected s2" "connecting s3 = connecting s2"
    "microtasks s3 = [ReactionJob (Then None (Some HandshakeFailed) 2)
                        (Rejected MESSAGE_TIMEOUT_REASON)]"
    by (rule attempt_fails_midway [where s = s2 and p = 0 and q = 1 and h = 0 and due = 4000
          and ident = "''01000''", OF _ _ _ _ _ _ _ _ s3_def]; simp add: s2_def f)+
  have s3_eq: "run [CallSendHandshake, Tick 3000, TimerFires 0, Microtask] example_channel = s3"
    by (simp add: s3_def s2_def s1_def run_def)
  have ph: "phase s3 = Connecting" by (simp add: phase_def m s2_def f)
  have "phase (step Microtask s3) = Unconnected"
    by (simp add: phase_def microtask_flags m s2_def f)
  with ph have less: "phase_rank (phase (step Microtask s3)) < phase_rank (phase s3)" by simp
  from connection_state_moves [where s = "run [CallSendHandshake, InvokeCallback ''01000'' JNull,
      Microtask, Microtask] example_channel"
      and evs = "[CallSendHandshake, Tick 5000, TimerFires 0, Microtask]"]
    connection_state_moves [where s = s3 and ev = Microtask] c4 less ph
  show ?thesis by (simp add: s3_eq)
qed

section \<open>Replies, the correlator and the constructor\<close>

text \<open>
  Claim C7, as stated, fails: "a reply envelope omits the callback field". The reply the
  example channel sends for an inbound call has a \<open>callback\<close> field, holding the empty
  string.
\<close>

theorem reply_envelope_has_callback_field:
  "sent (step (InvokeHandler ''some-ios-uuid'' ''testNoHandlerCallback'' (JObj [])) example_channel)
     = [reply_payload ''some-ios-uuid'' JNull]
   \<and> map_of (reply_payload ''some-ios-uuid'' JNull) ''callback'' = Some (JStr [])"
  by (simp add: handlerGlobal_fn_def priv_handleMessage_def reply_payload_def)

text \<open>
  Claim C7, amended. Every reply envelope carries the reserved reply action
  \<open>__WK_CALLBACK__\<close> as its action, the id and the data it was given, the protocol type tag,
  and a \<open>callback\<close> field that is the empty string.
\<close>

theorem reply_envelope_fields:
  "priv_sendMessageCallback ident data s = Inr s' \<Longrightarrow>
     \<exists>e. sent s' = sent s @ [e]
       \<and> map_of e ''type'' = Some (JStr MESSAGE_TYPE)
       \<and> map_of e ''action'' = Some (JStr CALLBACK_ACTION)
       \<and> map_of e ''id'' = Some (JStr ident)
       \<and> map_of e ''data'' = Some data
       \<and> map_of e ''callback'' = Some (JStr [])"
  by (auto simp: priv_sendMessageCallback_def postMessage_def reply_payload_def
      split: option.splits)

theorem reply_envelope_fields_witness:
  "priv_sendMessageCallback ''some-ios-uuid'' (JNum 7) example_channel
     = Inr (example_channel\<lparr>sent := [reply_payload ''some-ios-uuid'' (JNum 7)]\<rparr>)
   \<and> (\<exists>e. sent (example_channel\<lparr>sent := [reply_payload ''some-ios-uuid'' (JNum 7)]\<rparr>)
            = sent example_channel @ [e]
       \<and> map_of e ''type'' = Some (JStr MESSAGE_TYPE)
       \<and> map_of e ''action'' = Some (JStr CALLBACK_ACTION)
       \<and> map_of e ''id'' = Some (JStr ''some-ios-uuid'')
       \<and> map_of e ''data'' = Some (JNum 7)
       \<and> map_of e ''callback'' = Some (JStr []))"
proof -
  have h: "priv_sendMessageCallback ''some-ios-uuid'' (JNum 7) example_channel
     = Inr (example_channel\<lparr>sent := [reply_payload ''some-ios-uuid'' (JNum 7)]\<rparr>)"
    by simp
  from reply_envelope_fields [OF h] h show ?thesis by blast
qed

text \<open>
  Claim C6: firing a reply removes the registered waiter. The code does not do this: the
  waiter is added with \<open>on\<close>, the reply calls it through \<open>trigger\<close>, and only the timeout
  path removes it with \<open>off\<close>. On the example channel, after the handshake call and its
  reply, the promise of the call is fulfilled and its waiter is still registered under the
  id of the call.
\<close>

theorem reply_leaves_waiter_registered:
  "promises (run [CallSendHandshake, InvokeCallback ''01000'' JNull] example_channel) 0
     = Fulfilled JNull
   \<and> emitter (run [CallSendHandshake, InvokeCallback ''01000'' JNull] example_channel) ''01000''
     = [CallbackReceived 0 (Some 0)]"
proof -
  define s1 where "s1 = run [CallSendHandshake] example_channel"
  note f = example_handshake_sent [folded s1_def]
  have "run [CallSendHandshake, InvokeCallback ''01000'' JNull] example_channel
      = callbackGlobal_fn ''01000'' JNull s1"
    by (simp add: s1_def run_def)
  then show ?thesis
    by (simp add: f) (simp add: callbackGlobal_fn_def emitter_trigger_def f)
qed

text \<open>
  Claim C8: construction throws when the named transport target cannot be located. The
  code throws only when reading \<open>window.webkit.messageHandlers[name]\<close> throws. Where
  \<open>messageHandlers\<close> exists and has no handler of that name, the constructor returns a
  channel whose \<open>parent\<close> is \<open>undefined\<close>.
\<close>

theorem constructor_missing_handler_returns:
  "isl (constructor default_options (Some (Some [(''otherHandler'', 0)])) 1000) = False
   \<and> parent (projr (constructor default_options (Some (Some [(''otherHandler'', 0)])) 1000)) = None"
proof -
  let ?s = "\<lparr>connecting = False, connected = False, whenReady = None,
      hm = ''wkPostMessengerHandleMessage'', cb = ''wkPostMessengerCallback'',
      handshakeTimeout = 3000, messageTimeout = 3000, idGen = Timestamp timestampIdGenerator,
      handleMessage = None, parent = None, emitter = (\<lambda>ev. []), promises = (\<lambda>p. Pending),
      reactions = (\<lambda>p. []), npromises = 0, userPromises = [], timers = [], ntimers = 0,
      microtasks = [], clock = 1000,
      globals = [(''wkPostMessengerCallback'', CallbackEntry),
                 (''wkPostMessengerHandleMessage'', HandlerEntry)],
      sent = []\<rparr>"
  from sendHandshake_unconnected [of ?s] obtain s1 where
    "sendHandshake ?s = Inr (Some 2, s1)" "parent s1 = None"
    by (auto simp: numeral_2_eq_2)
  then show ?thesis
    by (simp add: constructor_def default_options_def DEFAULT_TIMEOUT_def)
qed

section \<open>Inbound calls\<close>







section \<open>Messages behind a failed handshake\<close>

text \<open>The channel after \<open>sendHandshake()\<close>, the 3000 ms of the handshake timeout, the timer
  and the four microtasks that follow it.\<close>

lemma example_handshake_timed_out:
  defines "s7 \<equiv> run [CallSendHandshake, Tick 3000, TimerFires 0,
                      Microtask, Microtask, Microtask, Microtask] example_channel"
  shows "whenReady s7 = Some 2" "promises s7 2 = Rejected HANDSHAKE_TIMEOUT_REASON"
    "npromises s7 = 4" "\<not> connecting s7" "\<not> connected s7" "microtasks s7 = []"
    "timers s7 = []" "emitter s7 ''01000'' = []"
    "sent s7 = [request_payload ''wkPostMessengerCallback'' ''01000'' HANDSHAKE_ACTION
                 (JStr ''wkPostMessengerHandleMessage'')]"
proof -
  define s1 where "s1 = run [CallSendHandshake] example_channel"
  define s2 where "s2 = step (Tick 3000) s1"
  note f = example_handshake_sent [folded s1_def]
  have s7_eq: "s7 = run [TimerFires 0, Microtask, Microtask, Microtask, Microtask] s2"
    by (simp add: s7_def s2_def s1_def run_def)
  have pre: "promises s2 0 = Pending" "promises s2 1 = Pending" "promises s2 2 = Pending"
    "(0::nat) < npromises s2" "1 < npromises s2" "2 < npromises s2"
    "reactions s2 0 = [Then (Some SetConnected) None 1]"
    "reactions s2 1 = [Then None (Some HandshakeFailed) 2]"
    "find (\<lambda>t. fst t = 0) (timers s2) = Some (0, 4000, RejectTimeout ''01000'' 0 0)"
    "4000 \<le> clock s2" "microtasks s2 = []"
    by (simp_all add: s2_def f)
  note r = attempt_fails [where s = s2 and p = 0 and q = 1 and r = 2, OF pre(1-3) _ _ _ pre(4-11) s7_eq]
  show "whenReady s7 = Some 2" "promises s7 2 = Rejected HANDSHAKE_TIMEOUT_REASON"
    "npromises s7 = 4" "\<not> connecting s7" "\<not> connected s7" "microtasks s7 = []"
    "timers s7 = []" "emitter s7 ''01000'' = []"
    "sent s7 = [request_payload ''wkPostMessengerCallback'' ''01000'' HANDSHAKE_ACTION
                 (JStr ''wkPostMessengerHandleMessage'')]"
    by (simp_all add: r s2_def f)
qed

text \<open>
  Claim C10. When \<open>_whenReady\<close> is a rejected promise (a handshake attempt has failed and
  \<open>sendHandshake()\<close> has not been called since), \<open>sendMessage\<close> does not call
  \<open>sendHandshake\<close>: the call sends no envelope and arms no timer, leaves \<open>_whenReady\<close>
  and the connection flags as they are, and queues one job for the deferred it returns;
  that job, whenever it runs, rejects the deferred with the reason \<open>_whenReady\<close> was
  rejected with and sends nothing. The next \<open>sendMessage\<close> call finds the same situation.
\<close>

theorem sendMessage_after_failed_handshake:
  assumes "whenReady s = Some r" "r < npromises s" "promises s r = Rejected e"
  shows "\<exists>s1 j. sendMessage action data timeoutArg s = Inr (npromises s, s1)
     \<and> sent s1 = sent s \<and> timers s1 = timers s \<and> emitter s1 = emitter s
     \<and> connecting s1 = connecting s \<and> connected s1 = connected s
     \<and> whenReady s1 = Some r \<and> r < npromises s1 \<and> promises s1 r = Rejected e
     \<and> promises s1 (npromises s) = Pending
     \<and> microtasks s1 = microtasks s @ [j]
     \<and> (\<forall>s'. promises s' (npromises s) = Pending \<longrightarrow>
            promises (run_job j s') (npromises s) = Rejected e
            \<and> sent (run_job j s') = sent s' \<and> timers (run_job j s') = timers s'
            \<and> emitter (run_job j s') = emitter s' \<and> whenReady (run_job j s') = whenReady s'
            \<and> connecting (run_job j s') = connecting s')
     \<and> (microtasks s = [] \<longrightarrow>
            promises (microtask s1) (npromises s) = Rejected e \<and> sent (microtask s1) = sent s)"
proof -
  define T where "T = (case timeoutArg of None \<Rightarrow> messageTimeout s | Some t \<Rightarrow> t)"
  define m where "m = npromises s"
  define j where "j = ReactionJob (Then (Some (IssueMessage action data T)) None m) (Rejected e)"
  define s1 where "s1 = snd (promise_then r (Some (IssueMessage action data T)) None s)"
  have call: "sendMessage action data timeoutArg s = Inr (m, s1)"
    by (simp add: sendMessage_ready [OF assms(1)] s1_def T_def m_def)
  have rm: "r \<noteq> m" using assms(2) by (simp add: m_def)
  have q: "microtasks s1 = microtasks s @ [j]" "reactions s1 m = []"
    using assms rm by (simp_all add: s1_def promise_then_queue j_def m_def)
  have f: "sent s1 = sent s" "timers s1 = timers s" "emitter s1 = emitter s"
    "connecting s1 = connecting s" "connected s1 = connected s" "whenReady s1 = Some r"
    "r < npromises s1" "promises s1 r = Rejected e" "promises s1 m = Pending"
    using assms rm by (simp_all add: s1_def m_def)
  have job: "promises (run_job j s') m = Rejected e
            \<and> sent (run_job j s') = sent s' \<and> timers (run_job j s') = timers s'
            \<and> emitter (run_job j s') = emitter s' \<and> whenReady (run_job j s') = whenReady s'
            \<and> connecting (run_job j s') = connecting s'"
    if "promises s' m = Pending" for s'
    using that by (simp add: j_def)
  have "promises (microtask s1) m = Rejected e \<and> sent (microtask s1) = sent s"
    if "microtasks s = []"
  proof -
    from that q have "microtask s1 = run_job j (s1\<lparr>microtasks := []\<rparr>)"
      by (simp add: microtask_Cons)
    with job [of "s1\<lparr>microtasks := []\<rparr>"] f show ?thesis by simp
  qed
  with call q f job show ?thesis unfolding m_def [symmetric] by blast
qed

theorem sendMessage_after_failed_handshake_witness:
  "whenReady (run [CallSendHandshake, Tick 3000, TimerFires 0,
                   Microtask, Microtask, Microtask, Microtask] example_channel) = Some 2
   \<and> promises (run [CallSendHandshake, Tick 3000, TimerFires 0,
                   Microtask, Microtask, Microtask, Microtask] example_channel) 2
       = Rejected HANDSHAKE_TIMEOUT_REASON
   \<and> promises (run [CallSendHandshake, Tick 3000, TimerFires 0,
                   Microtask, Microtask, Microtask, Microtask,
                   CallSendMessage ''echo'' (JNum 1) None, Microtask] example_channel) 4
       = Rejected HANDSHAKE_TIMEOUT_REASON
   \<and> sent (run [CallSendHandshake, Tick 3000, TimerFires 0,
                   Microtask, Microtask, Microtask, Microtask,
                   CallSendMessage ''echo'' (JNum 1) None, Microtask] example_channel)
       = [request_payload ''wkPostMessengerCallback'' ''01000'' HANDSHAKE_ACTION
            (JStr ''wkPostMessengerHandleMessage'')]"
proof -
  define s7 where "s7 = run [CallSendHandshake, Tick 3000, TimerFires 0,
                      Microtask, Microtask, Microtask, Microtask] example_channel"
  note f = example_handshake_timed_out [folded s7_def]
  have h: "whenReady s7 = Some 2" "2 < npromises s7"
    "promises s7 2 = Rejected HANDSHAKE_TIMEOUT_REASON"
    by (simp_all add: f)
  from sendMessage_after_failed_handshake [OF h, of "''echo''" "JNum 1" None] f
  obtain s8 where s8: "sendMessage ''echo'' (JNum 1) None s7 = Inr (4, s8)"
    "promises (microtask s8) 4 = Rejected HANDSHAKE_TIMEOUT_REASON"
    "sent (microtask s8) = sent s7"
    by auto
  have "run [CallSendHandshake, Tick 3000, TimerFires 0, Microtask, Microtask, Microtask, Microtask,
             CallSendMessage ''echo'' (JNum 1) None, Microtask] example_channel = microtask s8"
    using s8(1) by (simp add: run_def s7_def)
  with s8 f show ?thesis by (simp add: s7_def)
qed

section \<open>A message sent before any handshake\<close>

text \<open>The channel after a \<open>sendMessage\<close> that starts the handshake itself.\<close>

lemma sendMessage_first_state:
  fixes timeoutArg :: "int option"
  assumes u: "whenReady s = None" "\<not> connected s" "\<not> connecting s" and par: "parent s \<noteq> None"
  defines "T \<equiv> (case timeoutArg of None \<Rightarrow> messageTimeout s | Some t \<Rightarrow> t)"
  shows "\<exists>s2. sendMessage action data timeoutArg s = Inr (npromises s + 3, s2)
    \<and> connecting s2 \<and> \<not> connected s2 \<and> whenReady s2 = Some (npromises s + 2)
    \<and> cb s2 = cb s \<and> parent s2 = parent s \<and> clock s2 = clock s
    \<and> idGen s2 = snd (idGen_next (clock s) (idGen s))
    \<and> npromises s2 = npromises s + 4
    \<and> promises s2 = (promises s)(npromises s := Pending, npromises s + 1 := Pending,
          npromises s + 2 := Pending, npromises s + 3 := Pending)
    \<and> reactions s2 = (reactions s)(npromises s := [Then (Some SetConnected) None (npromises s + 1)],
          npromises s + 1 := [Then None (Some HandshakeFailed) (npromises s + 2)],
          npromises s + 2 := [Then (Some (IssueMessage action data T)) None (npromises s + 3)],
          npromises s + 3 := [])
    \<and> microtasks s2 = microtasks s
    \<and> emitter s2 = (emitter s)(next_id s := emitter s (next_id s) @
        [CallbackReceived (npromises s) (if 0 < handshakeTimeout s then Some (ntimers s) else None)])
    \<and> timers s2 =
        (if 0 < handshakeTimeout s
         then timers s @ [(ntimers s, clock s + handshakeTimeout s,
                           RejectTimeout (next_id s) (npromises s) (ntimers s))]
         else timers s)
    \<and> sent s2 = sent s @ [request_payload (cb s) (next_id s) HANDSHAKE_ACTION (JStr (hm s))]"
proof -
  from sendHandshake_unconnected [OF u(2,3)] par obtain s1 where
    s1: "sendHandshake s = Inr (Some (npromises s + 2), s1)"
      "connecting s1" "\<not> connected s1" "whenReady s1 = Some (npromises s + 2)"
      "cb s1 = cb s" "parent s1 = parent s" "clock s1 = clock s"
      "messageTimeout s1 = messageTimeout s"
      "idGen s1 = snd (idGen_next (clock s) (idGen s))"
      "npromises s1 = npromises s + 3"
      "promises s1 = (promises s)(npromises s := Pending, npromises s + 1 := Pending,
          npromises s + 2 := Pending)"
      "reactions s1 = (reactions s)(npromises s := [Then (Some SetConnected) None (npromises s + 1)],
          npromises s + 1 := [Then None (Some HandshakeFailed) (npromises s + 2)],
          npromises s + 2 := [])"
      "microtasks s1 = microtasks s"
      "emitter s1 = (emitter s)(next_id s := emitter s (next_id s) @
        [CallbackReceived (npromises s) (if 0 < handshakeTimeout s then Some (ntimers s) else None)])"
      "timers s1 =
        (if 0 < handshakeTimeout s
         then timers s @ [(ntimers s, clock s + handshakeTimeout s,
                           RejectTimeout (next_id s) (npromises s) (ntimers s))]
         else timers s)"
      "sent s1 = sent s @ [request_payload (cb s) (next_id s) HANDSHAKE_ACTION (JStr (hm s))]"
    by auto
  let ?s2 = "snd (promise_then (npromises s + 2) (Some (IssueMessage action data T)) None s1)"
  have call: "sendMessage action data timeoutArg s = Inr (npromises s + 3, ?s2)"
    using u(1) s1(1,4,8,10) by (simp add: sendMessage_def prod_eq_iff T_def)
  have f: "connecting ?s2" "\<not> connected ?s2" "whenReady ?s2 = Some (npromises s + 2)"
    "cb ?s2 = cb s" "parent ?s2 = parent s" "clock ?s2 = clock s"
    "idGen ?s2 = snd (idGen_next (clock s) (idGen s))" "npromises ?s2 = npromises s + 4"
    "emitter ?s2 = emitter s1" "timers ?s2 = timers s1" "sent ?s2 = sent s1"
    using s1 by simp_all
  have g: "promises ?s2 = (promises s)(npromises s := Pending, npromises s + 1 := Pending,
          npromises s + 2 := Pending, npromises s + 3 := Pending)"
    "reactions ?s2 = (reactions s)(npromises s := [Then (Some SetConnected) None (npromises s + 1)],
          npromises s + 1 := [Then None (Some HandshakeFailed) (npromises s + 2)],
          npromises s + 2 := [Then (Some (IssueMessage action data T)) None (npromises s + 3)],
          npromises s + 3 := [])"
    "microtasks ?s2 = microtasks s"
    using s1 by (simp_all add: promise_then_queue fun_upd_twist)
  show ?thesis using call f g s1(14,15,16) by (intro exI [of _ ?s2]) simp
qed

section \<open>The message waits for the handshake deferred\<close>

lemma gatedD:
  assumes "gated s r m"
  shows "r < npromises s" "m < npromises s"
    "rc \<in> set (reactions s x) \<Longrightarrow> is_issue m rc \<Longrightarrow> x = r \<and> promises s r = Pending"
    "ReactionJob rc outcome \<in> set (microtasks s) \<Longrightarrow> is_issue m rc \<Longrightarrow>
       outcome = Pending \<or> outcome = promises s r"
  using assms unfolding gated_def by blast+

lemma gatedI:
  assumes "r < npromises s" "m < npromises s"
    "\<And>x rc. rc \<in> set (reactions s x) \<Longrightarrow> is_issue m rc \<Longrightarrow> x = r \<and> promises s r = Pending"
    "\<And>rc outcome. ReactionJob rc outcome \<in> set (microtasks s) \<Longrightarrow> is_issue m rc \<Longrightarrow>
       outcome = Pending \<or> outcome = promises s r"
  shows "gated s r m"
  using assms unfolding gated_def by blast

lemma gated_fields:
  "\<lbrakk>npromises s' = npromises s; promises s' = promises s; reactions s' = reactions s;
    microtasks s' = microtasks s\<rbrakk> \<Longrightarrow> gated s' r m = gated s r m"
  unfolding gated_def by simp

lemma gated_newPromise:
  assumes g: "gated s r m"
  shows "gated (snd (newPromise st s)) r m"
proof (rule gatedI)
  note d = gatedD [OF g]
  show "r < npromises (snd (newPromise st s))" "m < npromises (snd (newPromise st s))"
    using d(1,2) by simp_all
  fix x rc assume "rc \<in> set (reactions (snd (newPromise st s)) x)" and i: "is_issue m rc"
  then have "rc \<in> set (reactions s x)" by (auto split: if_splits)
  from d(3) [OF this i] d(1)
  show "x = r \<and> promises (snd (newPromise st s)) r = Pending" by simp
next
  note d = gatedD [OF g]
  fix rc outcome assume "ReactionJob rc outcome \<in> set (microtasks (snd (newPromise st s)))"
    and i: "is_issue m rc"
  then have "ReactionJob rc outcome \<in> set (microtasks s)" by simp
  from d(4) [OF this i] d(1)
  show "outcome = Pending \<or> outcome = promises (snd (newPromise st s)) r" by simp
qed

lemma gated_settle:
  assumes g: "gated s r m"
  shows "gated (settle x outcome s) r m"
proof (cases "promises s x = Pending")
  case False
  with g show ?thesis by simp
next
  case True
  note d = gatedD [OF g]
  show ?thesis
  proof (rule gatedI)
    show "r < npromises (settle x outcome s)" "m < npromises (settle x outcome s)"
      using d(1,2) by simp_all
  next
    fix y rc assume "rc \<in> set (reactions (settle x outcome s) y)" and i: "is_issue m rc"
    with True have y: "y \<noteq> x" "rc \<in> set (reactions s y)" by (auto split: if_splits)
    from d(3) [OF y(2) i] y(1) True
    show "y = r \<and> promises (settle x outcome s) r = Pending" by auto
  next
    fix rc outcome' assume j: "ReactionJob rc outcome' \<in> set (microtasks (settle x outcome s))"
      and i: "is_issue m rc"
    from j True consider "ReactionJob rc outcome' \<in> set (microtasks s)"
      | "rc \<in> set (reactions s x)" "outcome' = outcome"
      by auto
    then show "outcome' = Pending \<or> outcome' = promises (settle x outcome s) r"
    proof cases
      case 1
      from d(4) [OF 1 i] True show ?thesis by (cases "x = r") auto
    next
      case 2
      from d(3) [OF 2(1) i] 2(2) True show ?thesis by simp
    qed
  qed
qed

lemma gated_subscribe:
  assumes g: "gated s r m" and n: "\<not> is_issue m rc"
  shows "gated (subscribe x rc s) r m"
proof (rule gatedI)
  note d = gatedD [OF g]
  show "r < npromises (subscribe x rc s)" "m < npromises (subscribe x rc s)"
    using d(1,2) by simp_all
  fix y rc' assume "rc' \<in> set (reactions (subscribe x rc s) y)" and i: "is_issue m rc'"
  with n have "rc' \<in> set (reactions s y)" by (auto simp: subscribe_changed split: if_splits)
  from d(3) [OF this i] show "y = r \<and> promises (subscribe x rc s) r = Pending" by simp
next
  note d = gatedD [OF g]
  fix rc' outcome assume "ReactionJob rc' outcome \<in> set (microtasks (subscribe x rc s))"
    and i: "is_issue m rc'"
  with n have "ReactionJob rc' outcome \<in> set (microtasks s)"
    by (auto simp: subscribe_changed split: if_splits)
  from d(4) [OF this i] show "outcome = Pending \<or> outcome = promises (subscribe x rc s) r"
    by simp
qed

lemma gated_enqueue_thenable:
  assumes g: "gated s r m"
  shows "gated (enqueue (ThenableJob q x) s) r m"
proof (rule gatedI)
  note d = gatedD [OF g]
  show "r < npromises (enqueue (ThenableJob q x) s)" "m < npromises (enqueue (ThenableJob q x) s)"
    using d(1,2) by simp_all
  fix y rc assume "rc \<in> set (reactions (enqueue (ThenableJob q x) s) y)" and i: "is_issue m rc"
  then have "rc \<in> set (reactions s y)" by simp
  from d(3) [OF this i] show "y = r \<and> promises (enqueue (ThenableJob q x) s) r = Pending"
    by simp
next
  note d = gatedD [OF g]
  fix rc outcome assume "ReactionJob rc outcome \<in> set (microtasks (enqueue (ThenableJob q x) s))"
    and i: "is_issue m rc"
  then have "ReactionJob rc outcome \<in> set (microtasks s)" by simp
  from d(4) [OF this i]
  show "outcome = Pending \<or> outcome = promises (enqueue (ThenableJob q x) s) r" by simp
qed

lemma gated_pop:
  assumes g: "gated s r m" and q: "microtasks s = j # js"
  shows "gated (s\<lparr>microtasks := js\<rparr>) r m"
proof (rule gatedI)
  note d = gatedD [OF g]
  show "r < npromises (s\<lparr>microtasks := js\<rparr>)" "m < npromises (s\<lparr>microtasks := js\<rparr>)"
    using d(1,2) by simp_all
  fix y rc assume "rc \<in> set (reactions (s\<lparr>microtasks := js\<rparr>) y)" and i: "is_issue m rc"
  then have "rc \<in> set (reactions s y)" by simp
  from d(3) [OF this i] show "y = r \<and> promises (s\<lparr>microtasks := js\<rparr>) r = Pending" by simp
next
  note d = gatedD [OF g]
  fix rc outcome assume "ReactionJob rc outcome \<in> set (microtasks (s\<lparr>microtasks := js\<rparr>))"
    and i: "is_issue m rc"
  then have "ReactionJob rc outcome \<in> set (microtasks s)" by (simp add: q)
  from d(4) [OF this i] show "outcome = Pending \<or> outcome = promises (s\<lparr>microtasks := js\<rparr>) r"
    by simp
qed

lemma gated_promise_then:
  assumes g: "gated s r m"
  shows "gated (snd (promise_then x f h s)) r m"
proof -
  from gatedD(2) [OF g] have "\<not> is_issue m (Then f h (npromises s))"
    by (cases "(m, Then f h (npromises s))" rule: is_issue.cases) auto
  with gated_newPromise [OF g] show ?thesis
    by (simp add: promise_then_def split_def gated_subscribe)
qed

lemma gated_priv_sendMessage:
  assumes g: "gated s r m"
  shows "gated (snd (priv_sendMessage action data timeout s)) r m"
proof -
  let ?s1 = "snd (newPromise Pending s)"
  let ?s' = "snd (priv_sendMessage action data timeout s)"
  have g1: "gated ?s1 r m" by (rule gated_newPromise [OF g])
  show ?thesis
  proof (cases "parent s")
    case (Some t)
    have "gated ?s' r m = gated ?s1 r m" using Some by (intro gated_fields) simp_all
    with g1 show ?thesis by simp
  next
    case None
    have "gated (settle (npromises s) (Rejected (JError ''TypeError'')) ?s1) r m"
      by (rule gated_settle [OF g1])
    moreover have "gated ?s' r m
        = gated (settle (npromises s) (Rejected (JError ''TypeError'')) ?s1) r m"
      using None by (intro gated_fields) (simp_all add: settle_changed)
    ultimately show ?thesis by simp
  qed
qed

lemma gated_cong:
  "\<lbrakk>gated s r m; npromises s0 = npromises s; promises s0 = promises s;
    reactions s0 = reactions s; microtasks s0 = microtasks s\<rbrakk> \<Longrightarrow> gated s0 r m"
  using gated_fields [of s0 s r m] by simp

lemma gated_callbackReceived:
  assumes g: "gated s r m"
  shows "gated (callbackReceived l arg s) r m"
proof (cases l)
  case (CallbackReceived x ho)
  have "gated (clearTimeout ho s) r m" by (rule gated_cong [OF g]) simp_all
  then show ?thesis unfolding CallbackReceived by (simp add: gated_settle)
qed

lemma gated_callbackGlobal_fn:
  assumes "gated s r m"
  shows "gated (callbackGlobal_fn ident result s) r m"
proof -
  have "gated (fold (\<lambda>l. callbackReceived l result) ls s) r m" if "gated s r m" for ls s
    using that by (induction ls arbitrary: s) (simp_all add: gated_callbackReceived)
  with assms show ?thesis by (simp add: callbackGlobal_fn_def emitter_trigger_def)
qed

lemma gated_fire_timer:
  assumes g: "gated s r m"
  shows "gated (fire_timer h s) r m"
proof -
  have "gated (run_timer f (s\<lparr>timers := ts\<rparr>)) r m" for f ts
  proof (cases f)
    case (RejectTimeout ident x h')
    have "gated (emitter_off ident (CallbackReceived x (Some h')) (s\<lparr>timers := ts\<rparr>)) r m"
      by (rule gated_cong [OF g]) simp_all
    then show ?thesis unfolding RejectTimeout by (simp add: gated_settle)
  qed
  with g show ?thesis by (simp add: fire_timer_def split: option.splits prod.splits)
qed

lemma gated_callback:
  assumes g: "gated s r m"
  shows "gated (resolve_with q (fst (call_callback f v s)) (snd (call_callback f v s))) r m"
proof (cases f)
  case SetConnected
  have "gated (s\<lparr>connected := True\<rparr>) r m" by (rule gated_cong [OF g]) simp_all
  with SetConnected show ?thesis by (simp add: gated_settle)
next
  case HandshakeFailed
  have "gated (s\<lparr>connecting := False\<rparr>) r m" by (rule gated_cong [OF g]) simp_all
  then have "gated (enqueue (ThenableJob q (npromises s))
      (snd (newPromise (Rejected HANDSHAKE_TIMEOUT_REASON) (s\<lparr>connecting := False\<rparr>)))) r m"
    by (intro gated_enqueue_thenable gated_newPromise)
  with HandshakeFailed show ?thesis by (simp add: split_def Let_def)
next
  case (IssueMessage action data timeout)
  have "gated (enqueue (ThenableJob q (npromises s))
      (snd (priv_sendMessage action data timeout s))) r m"
    by (intro gated_enqueue_thenable gated_priv_sendMessage g)
  with IssueMessage show ?thesis by (simp add: split_def Let_def)
next
  case (ReplyWith ident)
  show ?thesis
  proof (cases "parent s")
    case None
    with ReplyWith g show ?thesis by (simp add: gated_settle)
  next
    case (Some t)
    have "gated (s\<lparr>sent := sent s @ [reply_payload ident v]\<rparr>) r m"
      by (rule gated_cong [OF g]) simp_all
    with ReplyWith Some show ?thesis by (simp add: gated_settle)
  qed
qed

lemma gated_run_job:
  assumes g: "gated s r m"
  shows "gated (run_job j s) r m"
proof (cases "(j, s)" rule: run_job.cases)
  case (1 q x s')
  with g show ?thesis by (simp add: gated_subscribe)
next
  case (2 q outcome s')
  with g show ?thesis by (simp add: gated_settle)
next
  case (3 onFulfilled onRejected q s')
  with g show ?thesis by simp
next
  case (4 onFulfilled onRejected q v s')
  with g gated_callback [OF g, of q _ v] show ?thesis
    by (cases onFulfilled) (simp_all add: gated_settle split_def Let_def)
next
  case (5 onFulfilled onRejected q e s')
  with g gated_callback [OF g, of q _ e] show ?thesis
    by (cases onRejected) (simp_all add: gated_settle split_def Let_def)
qed

lemma gated_microtask:
  assumes g: "gated s r m"
  shows "gated (microtask s) r m"
proof (cases "microtasks s")
  case Nil
  with g show ?thesis by simp
next
  case (Cons j js)
  from gated_run_job [OF gated_pop [OF g Cons]] show ?thesis
    by (simp add: microtask_Cons [OF Cons])
qed

lemma gated_sendHandshake:
  assumes g: "gated s r m" and c: "sendHandshake s = Inr (w, s1)"
  shows "gated s1 r m"
proof (cases "connecting s")
  case True
  with c g show ?thesis by (cases "connected s") (simp_all add: sendHandshake_def)
next
  case False
  from c have nc: "\<not> connected s" by (auto simp: sendHandshake_def split: if_splits)
  let ?s0 = "s\<lparr>connecting := True\<rparr>"
  let ?s3 = "snd (promise_then (npromises s + 1) None (Some HandshakeFailed)
               (snd (promise_then (npromises s) (Some SetConnected) None
                  (snd (priv_sendMessage HANDSHAKE_ACTION (JStr (hm s)) (handshakeTimeout s) ?s0)))))"
  have "gated ?s0 r m" by (rule gated_cong [OF g]) simp_all
  then have "gated ?s3 r m" by (intro gated_promise_then gated_priv_sendMessage)
  then have "gated (?s3\<lparr>whenReady := Some (npromises s + 2)\<rparr>) r m"
    by (rule gated_cong) simp_all
  moreover have "s1 = ?s3\<lparr>whenReady := Some (npromises s + 2)\<rparr>"
    using c unfolding sendHandshake_unconnected_eq [OF nc False] by auto
  ultimately show ?thesis by simp
qed

lemma gated_sendMessage:
  assumes g: "gated s r m" and c: "sendMessage action data timeoutArg s = Inr (m', s1)"
  shows "gated s1 r m"
proof (cases "whenReady s")
  case (Some w)
  with c g show ?thesis by (auto simp: sendMessage_ready gated_promise_then)
next
  case None
  with sendMessage_throws [of s action data timeoutArg] c
  have u: "\<not> connected s" "\<not> connecting s" by auto
  from sendMessage_first [OF None u, of action data timeoutArg] c obtain s' where
    s': "sendHandshake s = Inr (Some (npromises s + 2), s')"
    "s1 = snd (promise_then (npromises s + 2)
          (Some (IssueMessage action data
             (case timeoutArg of None \<Rightarrow> messageTimeout s | Some t \<Rightarrow> t))) None s')"
    by auto
  from gated_promise_then [OF gated_sendHandshake [OF g s'(1)]] show ?thesis
    unfolding s'(2) .
qed

lemma gated_handlerGlobal_fn:
  assumes g: "gated s r m" and c: "handlerGlobal_fn ident action data s = Inr s1"
  shows "gated s1 r m"
proof (cases "priv_handleMessage action data s")
  case (HThrows e)
  with c show ?thesis by (simp add: handlerGlobal_fn_def)
next
  case (HReturns v)
  have "gated (s\<lparr>sent := sent s @ [reply_payload ident v]\<rparr>) r m"
    by (rule gated_cong [OF g]) simp_all
  with c HReturns show ?thesis by (cases "parent s") (auto simp: handlerGlobal_fn_def)
next
  case (HPromise st)
  let ?s1 = "snd (newPromise st s)"
  have "gated (?s1\<lparr>userPromises := npromises s # userPromises ?s1\<rparr>) r m"
    by (rule gated_cong [OF gated_newPromise [OF g]]) simp_all
  from gated_promise_then [OF this, of "npromises s" "Some (ReplyWith ident)" None] c HPromise
  show ?thesis by (auto simp: handlerGlobal_fn_def split_def Let_def)
qed

lemma gated_step:
  assumes g: "gated s r m"
  shows "gated (step ev s) r m"
proof (cases ev)
  case CallSendHandshake
  with g gated_sendHandshake [OF g] show ?thesis by (auto split: sum.splits)
next
  case (CallSendMessage action data timeoutArg)
  with g gated_sendMessage [OF g] show ?thesis by (auto split: sum.splits)
next
  case (InvokeHandler ident action data)
  with g gated_handlerGlobal_fn [OF g] show ?thesis by (auto split: sum.splits)
next
  case (Tick dt)
  have "gated (s\<lparr>clock := clock s + int dt\<rparr>) r m" by (rule gated_cong [OF g]) simp_all
  with Tick show ?thesis by simp
qed (use g in \<open>simp_all add: gated_callbackGlobal_fn gated_fire_timer gated_microtask gated_settle\<close>)

lemma gated_run: "gated s r m \<Longrightarrow> gated (run evs s) r m"
  unfolding run_def by (induction evs arbitrary: s) (simp_all add: gated_step)

text \<open>The transport log only grows.\<close>

lemma sent_step: "\<exists>xs. sent (step ev s) = sent s @ xs"
proof (cases ev)
  case CallSendHandshake
  with sendHandshake_unconnected [of s] show ?thesis
    by (cases "connected s"; cases "connecting s")
       (auto simp: sendHandshake_connected sendHandshake_connecting)
next
  case (CallSendMessage action data timeoutArg)
  show ?thesis
  proof (cases "whenReady s")
    case (Some w)
    with CallSendMessage show ?thesis by (simp add: sendMessage_ready)
  next
    case None
    show ?thesis
    proof (cases "connected s \<or> connecting s")
      case True
      with sendMessage_throws [OF None, of action data timeoutArg] CallSendMessage
      show ?thesis by auto
    next
      case False
      with sendMessage_first [OF None, of action data timeoutArg]
        sendHandshake_unconnected [of s] CallSendMessage
      show ?thesis by auto
    qed
  qed
next
  case (InvokeHandler ident action data)
  then show ?thesis
    by (cases "priv_handleMessage action data s"; cases "parent s")
       (auto simp: handlerGlobal_fn_def split_def Let_def)
next
  case Microtask
  show ?thesis
  proof (cases "microtasks s")
    case Nil
    with Microtask show ?thesis by simp
  next
    case (Cons j js)
    have cb: "\<exists>xs. sent (snd (call_callback f v s0)) = sent s0 @ xs" for f v s0
      by (cases f; cases "parent s0") (simp_all add: split_def Let_def)
    have "\<exists>xs. sent (run_job j s0) = sent s0 @ xs" for s0
      using cb [of _ _ s0]
      by (cases "(j, s0)" rule: run_job.cases)
         (auto simp: split_def Let_def split: option.splits)
    from this [of "s\<lparr>microtasks := js\<rparr>"] Microtask show ?thesis
      by (simp add: microtask_Cons [OF Cons])
  qed
qed simp_all

lemma sent_run: "\<exists>xs. sent (run evs s) = sent s @ xs"
  unfolding run_def
proof (induction evs arbitrary: s)
  case Nil
  show ?case by simp
next
  case (Cons ev evs)
  from sent_step [of ev s] Cons [of "step ev s"] show ?case by auto
qed

section \<open>Handshake first, message second\<close>

lemma find_last_handle:
  "\<forall>t \<in> set ts. fst t \<noteq> h \<Longrightarrow> find (\<lambda>t. fst t = h) (ts @ [(h, d, f)]) = Some (h, d, f)"
  by (induction ts) auto

text \<open>The id of the message a \<open>sendMessage\<close> issues after its own handshake: the second
  one the generator yields, with the clock where it was.\<close>

lemma sendMessage_first_success:
  fixes timeoutArg :: "int option" and action :: string and data :: jsval and result :: jsval
  assumes u: "whenReady s = None" "\<not> connected s" "\<not> connecting s" and par: "parent s \<noteq> None"
    and q: "microtasks s = []" and fresh: "emitter s (next_id s) = []"
  defines "T \<equiv> (case timeoutArg of None \<Rightarrow> messageTimeout s | Some t \<Rightarrow> t)"
  defines "hs \<equiv> request_payload (cb s) (next_id s) HANDSHAKE_ACTION (JStr (hm s))"
  defines "s3 \<equiv> run [CallSendMessage action data timeoutArg,
                      InvokeCallback (next_id s) result, Microtask, Microtask] s"
  shows "sent s3 = sent s @ [hs]" "connected s3"
    "promises s3 (npromises s + 2) = Fulfilled JUndefined"
    "microtasks s3 = [ReactionJob (Then (Some (IssueMessage action data T)) None (npromises s + 3))
                        (Fulfilled JUndefined)]"
    "sent (step Microtask s3) =
       sent s @ [hs, request_payload (cb s)
                       (fst (idGen_next (clock s) (snd (idGen_next (clock s) (idGen s)))))
                       action data]"
proof -
  define n where "n = npromises s"
  define ho where "ho = (if 0 < handshakeTimeout s then Some (ntimers s) else None)"
  from sendMessage_first_state [OF u par, of action data timeoutArg] obtain s2 where
    s2: "sendMessage action data timeoutArg s = Inr (n + 3, s2)"
      "cb s2 = cb s" "parent s2 = parent s" "clock s2 = clock s"
      "idGen s2 = snd (idGen_next (clock s) (idGen s))"
      "promises s2 = (promises s)(n := Pending, n + 1 := Pending, n + 2 := Pending, n + 3 := Pending)"
      "reactions s2 = (reactions s)(n := [Then (Some SetConnected) None (n + 1)],
          n + 1 := [Then None (Some HandshakeFailed) (n + 2)],
          n + 2 := [Then (Some (IssueMessage action data T)) None (n + 3)],
          n + 3 := [])"
      "microtasks s2 = microtasks s"
      "emitter s2 = (emitter s)(next_id s := emitter s (next_id s) @ [CallbackReceived n ho])"
      "sent s2 = sent s @ [hs]"
    unfolding n_def ho_def T_def hs_def by blast
  have run: "s3 = run [InvokeCallback (next_id s) result, Microtask, Microtask] s2"
    by (simp add: s3_def run_def s2)
  have pre: "promises s2 n = Pending" "promises s2 (n + 1) = Pending"
    "promises s2 (n + 2) = Pending"
    "reactions s2 n = [Then (Some SetConnected) None (n + 1)]"
    "reactions s2 (n + 1) = [Then None (Some HandshakeFailed) (n + 2)]"
    "emitter s2 (next_id s) = [CallbackReceived n ho]" "microtasks s2 = []"
    using q fresh by (simp_all add: s2)
  note r = attempt_succeeds [where s = s2 and p = n and q = "n + 1" and r = "n + 2",
      OF pre(1-3) _ _ _ pre(4-7) run]
  have f3: "connected s3" "sent s3 = sent s2" "parent s3 = parent s2" "cb s3 = cb s2"
    "clock s3 = clock s2" "idGen s3 = idGen s2"
    "promises s3 = (promises s2)(n := Fulfilled result, n + 1 := Fulfilled JUndefined,
        n + 2 := Fulfilled JUndefined)"
    "microtasks s3 = map (\<lambda>x. ReactionJob x (Fulfilled JUndefined)) (reactions s2 (n + 2))"
    by (rule r; simp)+
  show "sent s3 = sent s @ [hs]" "connected s3"
    "promises s3 (npromises s + 2) = Fulfilled JUndefined"
    using f3 by (simp_all add: s2 n_def [symmetric])
  show m3: "microtasks s3 =
      [ReactionJob (Then (Some (IssueMessage action data T)) None (npromises s + 3))
         (Fulfilled JUndefined)]"
    using f3(8) by (simp add: s2 n_def [symmetric])
  have "next_id (s3\<lparr>microtasks := []\<rparr>)
      = fst (idGen_next (clock s) (snd (idGen_next (clock s) (idGen s))))"
    by (simp add: next_id_def f3 s2)
  then show "sent (step Microtask s3) =
       sent s @ [hs, request_payload (cb s)
                       (fst (idGen_next (clock s) (snd (idGen_next (clock s) (idGen s)))))
                       action data]"
    using par by (simp add: microtask_Cons [OF m3] split_def Let_def f3 s2)
qed

lemma sendMessage_first_failure:
  fixes timeoutArg :: "int option" and action :: string and data :: jsval and dt :: nat
  assumes c: "consistent s" and u: "whenReady s = None" "\<not> connected s" "\<not> connecting s"
    and q: "microtasks s = []" and t: "0 < handshakeTimeout s" "handshakeTimeout s \<le> int dt"
  defines "hs \<equiv> request_payload (cb s) (next_id s) HANDSHAKE_ACTION (JStr (hm s))"
  defines "s8 \<equiv> run [CallSendMessage action data timeoutArg, Tick dt, TimerFires (ntimers s),
                      Microtask, Microtask, Microtask, Microtask, Microtask] s"
  shows "sent s8 = sent s @ [hs]" "microtasks s8 = []" "\<not> connecting s8" "\<not> connected s8"
    "promises s8 (npromises s + 2) = Rejected HANDSHAKE_TIMEOUT_REASON"
    "promises s8 (npromises s + 3) = Rejected HANDSHAKE_TIMEOUT_REASON"
proof -
  define n where "n = npromises s"
  define T where "T = (case timeoutArg of None \<Rightarrow> messageTimeout s | Some t \<Rightarrow> t)"
  note cs = consistentD [OF c]
  from sendMessage_first_state [OF u cs(1), of action data timeoutArg] t(1) obtain s2 where
    s2: "sendMessage action data timeoutArg s = Inr (n + 3, s2)"
      "\<not> connected s2" "clock s2 = clock s" "npromises s2 = n + 4"
      "promises s2 = (promises s)(n := Pending, n + 1 := Pending, n + 2 := Pending, n + 3 := Pending)"
      "reactions s2 = (reactions s)(n := [Then (Some SetConnected) None (n + 1)],
          n + 1 := [Then None (Some HandshakeFailed) (n + 2)],
          n + 2 := [Then (Some (IssueMessage action data T)) None (n + 3)],
          n + 3 := [])"
      "microtasks s2 = microtasks s"
      "timers s2 = timers s @ [(ntimers s, clock s + handshakeTimeout s,
                           RejectTimeout (next_id s) n (ntimers s))]"
      "sent s2 = sent s @ [hs]"
    unfolding n_def T_def hs_def by auto
  define s3 where "s3 = step (Tick dt) s2"
  define s7 where "s7 = run [TimerFires (ntimers s), Microtask, Microtask, Microtask, Microtask] s3"
  have old: "\<forall>t \<in> set (timers s). fst t \<noteq> ntimers s"
    using timers_okD(2) [OF cs(2)] by (metis less_irrefl)
  have pre: "promises s3 n = Pending" "promises s3 (n + 1) = Pending"
    "promises s3 (n + 2) = Pending" "n < npromises s3" "n + 1 < npromises s3"
    "n + 2 < npromises s3"
    "reactions s3 n = [Then (Some SetConnected) None (n + 1)]"
    "reactions s3 (n + 1) = [Then None (Some HandshakeFailed) (n + 2)]"
    "find (\<lambda>t. fst t = ntimers s) (timers s3)
       = Some (ntimers s, clock s + handshakeTimeout s, RejectTimeout (next_id s) n (ntimers s))"
    "clock s + handshakeTimeout s \<le> clock s3" "microtasks s3 = []"
    using q t(2) by (simp_all add: s3_def s2 find_last_handle [OF old])
  note r = attempt_fails [where s = s3 and p = n and q = "n + 1" and r = "n + 2",
      OF pre(1-3) _ _ _ pre(4-11) s7_def]
  have f7: "connected s7 = connected s3" "\<not> connecting s7" "sent s7 = sent s3"
    "promises s7 = (promises s3)(n := Rejected MESSAGE_TIMEOUT_REASON,
        n + 1 := Rejected MESSAGE_TIMEOUT_REASON, n + 2 := Rejected HANDSHAKE_TIMEOUT_REASON,
        npromises s3 := Rejected HANDSHAKE_TIMEOUT_REASON)"
    "reactions s7 = (reactions s3)(n := [], n + 1 := [], n + 2 := [], npromises s3 := [])"
    "microtasks s7 = map (\<lambda>x. ReactionJob x (Rejected HANDSHAKE_TIMEOUT_REASON))
                       (reactions s3 (n + 2))"
    by (rule r; simp)+
  have m7: "microtasks s7 = [ReactionJob (Then (Some (IssueMessage action data T)) None (n + 3))
                               (Rejected HANDSHAKE_TIMEOUT_REASON)]"
    using f7(6) by (simp add: s3_def s2)
  have s8_eq: "s8 = microtask s7"
    by (simp add: s8_def s7_def s3_def run_def s2)
  have p7: "promises s7 (n + 3) = Pending" "reactions s7 (n + 3) = []"
    by (simp_all add: f7 s3_def s2)
  show "sent s8 = sent s @ [hs]" "microtasks s8 = []" "\<not> connecting s8" "\<not> connected s8"
    "promises s8 (npromises s + 2) = Rejected HANDSHAKE_TIMEOUT_REASON"
    "promises s8 (npromises s + 3) = Rejected HANDSHAKE_TIMEOUT_REASON"
    unfolding s8_eq n_def [symmetric]
    using p7 f7(1,2,3) by (simp_all add: microtask_Cons [OF m7] f7(4) s3_def s2)
qed

lemma is_issue_target: "is_issue m rc \<Longrightarrow> reaction_target rc = m"
  by (cases "(m, rc)" rule: is_issue.cases) auto

lemma gated_sendMessage_first:
  fixes timeoutArg :: "int option"
  assumes c: "consistent s" and u: "whenReady s = None" "\<not> connected s" "\<not> connecting s"
  shows "gated (step (CallSendMessage action data timeoutArg) s) (npromises s + 2) (npromises s + 3)"
proof -
  define n where "n = npromises s"
  define T where "T = (case timeoutArg of None \<Rightarrow> messageTimeout s | Some t \<Rightarrow> t)"
  note cs = consistentD [OF c]
  from sendMessage_first_state [OF u cs(1), of action data timeoutArg] obtain s2 where
    s2: "sendMessage action data timeoutArg s = Inr (n + 3, s2)" "npromises s2 = n + 4"
      "promises s2 = (promises s)(n := Pending, n + 1 := Pending, n + 2 := Pending, n + 3 := Pending)"
      "reactions s2 = (reactions s)(n := [Then (Some SetConnected) None (n + 1)],
          n + 1 := [Then None (Some HandshakeFailed) (n + 2)],
          n + 2 := [Then (Some (IssueMessage action data T)) None (n + 3)],
          n + 3 := [])"
      "microtasks s2 = microtasks s"
    unfolding n_def T_def by blast
  have old: "\<not> is_issue (n + 3) rc" if "free_promise s (reaction_target rc)" for rc
    using free_promiseD(1) [OF that] is_issue_target [of "n + 3" rc] by (auto simp: n_def)
  have "gated s2 (n + 2) (n + 3)"
  proof (rule gatedI)
    show "n + 2 < npromises s2" "n + 3 < npromises s2" by (simp_all add: s2)
  next
    fix x rc assume m: "rc \<in> set (reactions s2 x)" and i: "is_issue (n + 3) rc"
    show "x = n + 2 \<and> promises s2 (n + 2) = Pending"
    proof (cases "x = n + 2")
      case True
      then show ?thesis by (simp add: s2)
    next
      case False
      with m i have "rc \<in> set (reactions s x)" by (auto simp: s2 split: if_splits)
      from old [OF refs_okD(1) [OF cs(5) this]] i show ?thesis by simp
    qed
  next
    fix rc outcome assume "ReactionJob rc outcome \<in> set (microtasks s2)"
      and i: "is_issue (n + 3) rc"
    then have "ReactionJob rc outcome \<in> set (microtasks s)" by (simp add: s2)
    from refs_okD(2) [OF cs(5) this] old [of rc] i
    show "outcome = Pending \<or> outcome = promises s2 (n + 2)" by simp
  qed
  then show ?thesis by (simp add: s2 n_def [symmetric])
qed

text \<open>
  On a consistent channel on which no handshake was ever initiated, a
  \<open>sendMessage(action, data)\<close> call sends exactly one envelope, the handshake envelope, and
  returns a deferred whose message is gated by the handshake deferred. Whatever happens
  afterwards, the transport log starts with what it held before the call followed by the
  handshake envelope, the message stays gated, and a job that is about to issue the message
  finds the handshake deferred fulfilled. When the handshake is acknowledged, the message
  envelope is sent by the third microtask after the reply, after the handshake envelope;
  when the handshake times out instead, the deferred of the call is rejected with the
  handshake rejection and no message envelope is sent.
\<close>

theorem sendMessage_before_handshake:
  "consistent s \<and> whenReady s = None \<and> \<not> connected s \<and> \<not> connecting s \<longrightarrow>
     (\<exists>s1. sendMessage action data timeoutArg s = Inr (npromises s + 3, s1)
        \<and> sent s1 = sent s @ [request_payload (cb s) (next_id s) HANDSHAKE_ACTION (JStr (hm s))]
        \<and> whenReady s1 = Some (npromises s + 2)
        \<and> gated s1 (npromises s + 2) (npromises s + 3))
     \<and> gated (run evs (step (CallSendMessage action data timeoutArg) s))
          (npromises s + 2) (npromises s + 3)
     \<and> (\<exists>xs. sent (run evs (step (CallSendMessage action data timeoutArg) s))
           = sent s @ [request_payload (cb s) (next_id s) HANDSHAKE_ACTION (JStr (hm s))] @ xs)
     \<and> (microtasks (run evs (step (CallSendMessage action data timeoutArg) s))
           = ReactionJob rc (Fulfilled v) # js \<and> is_issue (npromises s + 3) rc \<longrightarrow>
         promises (run evs (step (CallSendMessage action data timeoutArg) s)) (npromises s + 2)
           = Fulfilled v)
     \<and> (microtasks s = [] \<and> emitter s (next_id s) = [] \<longrightarrow>
         sent (run [CallSendMessage action data timeoutArg, InvokeCallback (next_id s) result,
                    Microtask, Microtask] s)
           = sent s @ [request_payload (cb s) (next_id s) HANDSHAKE_ACTION (JStr (hm s))]
         \<and> promises (run [CallSendMessage action data timeoutArg, InvokeCallback (next_id s) result,
                    Microtask, Microtask] s) (npromises s + 2) = Fulfilled JUndefined
         \<and> sent (run [CallSendMessage action data timeoutArg, InvokeCallback (next_id s) result,
                    Microtask, Microtask, Microtask] s)
           = sent s @ [request_payload (cb s) (next_id s) HANDSHAKE_ACTION (JStr (hm s)),
                       request_payload (cb s)
                         (fst (idGen_next (clock s) (snd (idGen_next (clock s) (idGen s)))))
                         action data])
     \<and> (microtasks s = [] \<and> 0 < handshakeTimeout s \<and> handshakeTimeout s \<le> int dt \<longrightarrow>
         promises (run [CallSendMessage action data timeoutArg, Tick dt, TimerFires (ntimers s),
                    Microtask, Microtask, Microtask, Microtask, Microtask] s) (npromises s + 2)
           = Rejected HANDSHAKE_TIMEOUT_REASON
         \<and> promises (run [CallSendMessage action data timeoutArg, Tick dt, TimerFires (ntimers s),
                    Microtask, Microtask, Microtask, Microtask, Microtask] s) (npromises s + 3)
           = Rejected HANDSHAKE_TIMEOUT_REASON
         \<and> sent (run [CallSendMessage action data timeoutArg, Tick dt, TimerFires (ntimers s),
                    Microtask, Microtask, Microtask, Microtask, Microtask] s)
           = sent s @ [request_payload (cb s) (next_id s) HANDSHAKE_ACTION (JStr (hm s))]
         \<and> microtasks (run [CallSendMessage action data timeoutArg, Tick dt, TimerFires (ntimers s),
                    Microtask, Microtask, Microtask, Microtask, Microtask] s) = [])"
proof (rule impI)
  assume a: "consistent s \<and> whenReady s = None \<and> \<not> connected s \<and> \<not> connecting s"
  then have c: "consistent s" and u: "whenReady s = None" "\<not> connected s" "\<not> connecting s"
    by blast+
  let ?hs = "request_payload (cb s) (next_id s) HANDSHAKE_ACTION (JStr (hm s))"
  let ?s1 = "step (CallSendMessage action data timeoutArg) s"
  note cs = consistentD [OF c]
  from sendMessage_first_state [OF u cs(1), of action data timeoutArg] obtain s1 where
    s1: "sendMessage action data timeoutArg s = Inr (npromises s + 3, s1)"
      "sent s1 = sent s @ [?hs]" "whenReady s1 = Some (npromises s + 2)"
    by blast
  have st: "?s1 = s1" by (simp add: s1)
  have g1: "gated s1 (npromises s + 2) (npromises s + 3)"
    using gated_sendMessage_first [OF c u, of action data timeoutArg] unfolding st .
  have p1: "\<exists>s1. sendMessage action data timeoutArg s = Inr (npromises s + 3, s1)
        \<and> sent s1 = sent s @ [?hs] \<and> whenReady s1 = Some (npromises s + 2)
        \<and> gated s1 (npromises s + 2) (npromises s + 3)"
    using s1 g1 by blast
  have g: "gated (run evs ?s1) (npromises s + 2) (npromises s + 3)"
    unfolding st by (rule gated_run [OF g1])
  have p3: "\<exists>xs. sent (run evs ?s1) = sent s @ [?hs] @ xs"
    using sent_run [of evs s1] by (simp add: st s1)
  have p4: "microtasks (run evs ?s1) = ReactionJob rc (Fulfilled v) # js
      \<and> is_issue (npromises s + 3) rc \<longrightarrow>
      promises (run evs ?s1) (npromises s + 2) = Fulfilled v"
  proof
    assume h: "microtasks (run evs ?s1) = ReactionJob rc (Fulfilled v) # js
      \<and> is_issue (npromises s + 3) rc"
    then have "ReactionJob rc (Fulfilled v) \<in> set (microtasks (run evs ?s1))" by simp
    from gatedD(4) [OF g this] h
    show "promises (run evs ?s1) (npromises s + 2) = Fulfilled v" by simp
  qed
  have p5: "microtasks s = [] \<and> emitter s (next_id s) = [] \<longrightarrow>
         sent (run [CallSendMessage action data timeoutArg, InvokeCallback (next_id s) result,
                    Microtask, Microtask] s) = sent s @ [?hs]
         \<and> promises (run [CallSendMessage action data timeoutArg, InvokeCallback (next_id s) result,
                    Microtask, Microtask] s) (npromises s + 2) = Fulfilled JUndefined
         \<and> sent (run [CallSendMessage action data timeoutArg, InvokeCallback (next_id s) result,
                    Microtask, Microtask, Microtask] s)
           = sent s @ [?hs, request_payload (cb s)
                         (fst (idGen_next (clock s) (snd (idGen_next (clock s) (idGen s)))))
                         action data]"
  proof
    assume h: "microtasks s = [] \<and> emitter s (next_id s) = []"
    then have q: "microtasks s = []" and f: "emitter s (next_id s) = []" by blast+
    note r = sendMessage_first_success [OF u cs(1) q f, of action data timeoutArg result]
    have "run [CallSendMessage action data timeoutArg, InvokeCallback (next_id s) result,
               Microtask, Microtask, Microtask] s
        = step Microtask (run [CallSendMessage action data timeoutArg,
               InvokeCallback (next_id s) result, Microtask, Microtask] s)"
      by (simp add: run_def)
    with r(1,3,5) show "sent (run [CallSendMessage action data timeoutArg,
                    InvokeCallback (next_id s) result, Microtask, Microtask] s) = sent s @ [?hs]
         \<and> promises (run [CallSendMessage action data timeoutArg, InvokeCallback (next_id s) result,
                    Microtask, Microtask] s) (npromises s + 2) = Fulfilled JUndefined
         \<and> sent (run [CallSendMessage action data timeoutArg, InvokeCallback (next_id s) result,
                    Microtask, Microtask, Microtask] s)
           = sent s @ [?hs, request_payload (cb s)
                         (fst (idGen_next (clock s) (snd (idGen_next (clock s) (idGen s)))))
                         action data]"
      by simp
  qed
  have p6: "microtasks s = [] \<and> 0 < handshakeTimeout s \<and> handshakeTimeout s \<le> int dt \<longrightarrow>
         promises (run [CallSendMessage action data timeoutArg, Tick dt, TimerFires (ntimers s),
                    Microtask, Microtask, Microtask, Microtask, Microtask] s) (npromises s + 2)
           = Rejected HANDSHAKE_TIMEOUT_REASON
         \<and> promises (run [CallSendMessage action data timeoutArg, Tick dt, TimerFires (ntimers s),
                    Microtask, Microtask, Microtask, Microtask, Microtask] s) (npromises s + 3)
           = Rejected HANDSHAKE_TIMEOUT_REASON
         \<and> sent (run [CallSendMessage action data timeoutArg, Tick dt, TimerFires (ntimers s),
                    Microtask, Microtask, Microtask, Microtask, Microtask] s) = sent s @ [?hs]
         \<and> microtasks (run [CallSendMessage action data timeoutArg, Tick dt, TimerFires (ntimers s),
                    Microtask, Microtask, Microtask, Microtask, Microtask] s) = []"
  proof
    assume h: "microtasks s = [] \<and> 0 < handshakeTimeout s \<and> handshakeTimeout s \<le> int dt"
    then have q: "microtasks s = []" and t: "0 < handshakeTimeout s" "handshakeTimeout s \<le> int dt"
      by blast+
    note r = sendMessage_first_failure [OF c u q t, of action data timeoutArg]
    from r(1,2,5,6) show "promises (run [CallSendMessage action data timeoutArg, Tick dt,
                    TimerFires (ntimers s),
                    Microtask, Microtask, Microtask, Microtask, Microtask] s) (npromises s + 2)
           = Rejected HANDSHAKE_TIMEOUT_REASON
         \<and> promises (run [CallSendMessage action data timeoutArg, Tick dt, TimerFires (ntimers s),
                    Microtask, Microtask, Microtask, Microtask, Microtask] s) (npromises s + 3)
           = Rejected HANDSHAKE_TIMEOUT_REASON
         \<and> sent (run [CallSendMessage action data timeoutArg, Tick dt, TimerFires (ntimers s),
                    Microtask, Microtask, Microtask, Microtask, Microtask] s) = sent s @ [?hs]
         \<and> microtasks (run [CallSendMessage action data timeoutArg, Tick dt, TimerFires (ntimers s),
                    Microtask, Microtask, Microtask, Microtask, Microtask] s) = []"
      by simp
  qed
  from p1 g p3 p4 p5 p6 show "(\<exists>s1. sendMessage action data timeoutArg s = Inr (npromises s + 3, s1)
        \<and> sent s1 = sent s @ [?hs]
        \<and> whenReady s1 = Some (npromises s + 2)
        \<and> gated s1 (npromises s + 2) (npromises s + 3))
     \<and> gated (run evs ?s1) (npromises s + 2) (npromises s + 3)
     \<and> (\<exists>xs. sent (run evs ?s1) = sent s @ [?hs] @ xs)
     \<and> (microtasks (run evs ?s1) = ReactionJob rc (Fulfilled v) # js
           \<and> is_issue (npromises s + 3) rc \<longrightarrow>
         promises (run evs ?s1) (npromises s + 2) = Fulfilled v)
     \<and> (microtasks s = [] \<and> emitter s (next_id s) = [] \<longrightarrow>
         sent (run [CallSendMessage action data timeoutArg, InvokeCallback (next_id s) result,
                    Microtask, Microtask] s) = sent s @ [?hs]
         \<and> promises (run [CallSendMessage action data timeoutArg, InvokeCallback (next_id s) result,
                    Microtask, Microtask] s) (npromises s + 2) = Fulfilled JUndefined
         \<and> sent (run [CallSendMessage action data timeoutArg, InvokeCallback (next_id s) result,
                    Microtask, Microtask, Microtask] s)
           = sent s @ [?hs, request_payload (cb s)
                         (fst (idGen_next (clock s) (snd (idGen_next (clock s) (idGen s)))))
                         action data])
     \<and> (microtasks s = [] \<and> 0 < handshakeTimeout s \<and> handshakeTimeout s \<le> int dt \<longrightarrow>
         promises (run [CallSendMessage action data timeoutArg, Tick dt, TimerFires (ntimers s),
                    Microtask, Microtask, Microtask, Microtask, Microtask] s) (npromises s + 2)
           = Rejected HANDSHAKE_TIMEOUT_REASON
         \<and> promises (run [CallSendMessage action data timeoutArg, Tick dt, TimerFires (ntimers s),
                    Microtask, Microtask, Microtask, Microtask, Microtask] s) (npromises s + 3)
           = Rejected HANDSHAKE_TIMEOUT_REASON
         \<and> sent (run [CallSendMessage action data timeoutArg, Tick dt, TimerFires (ntimers s),
                    Microtask, Microtask, Microtask, Microtask, Microtask] s) = sent s @ [?hs]
         \<and> microtasks (run [CallSendMessage action data timeoutArg, Tick dt, TimerFires (ntimers s),
                    Microtask, Microtask, Microtask, Microtask, Microtask] s) = [])"
    by (intro conjI)
qed

lemma second_id_example:
  "fst (idGen_next 1000 (snd (idGen_next 1000 (Timestamp timestampIdGenerator)))) = ''11000''"
  by (simp add: idGen_next_def gen_next_def timestampIdGenerator_def numToString_def
      digits.simps digit_char_def)

lemma example_issue_job:
  "microtasks (run [InvokeCallback ''01000'' JNull, Microtask, Microtask]
      (step (CallSendMessage ''echo'' (JNum 1) None) example_channel))
    = [ReactionJob (Then (Some (IssueMessage ''echo'' (JNum 1) 3000)) None 3)
         (Fulfilled JUndefined)]"
  using sendMessage_first_success(4) [where s = example_channel and action = "''echo''"
      and data = "JNum 1" and timeoutArg = None and result = JNull]
  by (simp add: run_Cons)

theorem sendMessage_before_handshake_witness:
  "(consistent example_channel \<and> whenReady example_channel = None
      \<and> \<not> connected example_channel \<and> \<not> connecting example_channel)
   \<and> (microtasks example_channel = [] \<and> emitter example_channel (next_id example_channel) = [])
   \<and> (microtasks example_channel = [] \<and> 0 < handshakeTimeout example_channel
        \<and> handshakeTimeout example_channel \<le> int 3000)
   \<and> (microtasks (run [InvokeCallback ''01000'' JNull, Microtask, Microtask]
          (step (CallSendMessage ''echo'' (JNum 1) None) example_channel))
        = ReactionJob (Then (Some (IssueMessage ''echo'' (JNum 1) 3000)) None 3)
            (Fulfilled JUndefined) # []
      \<and> is_issue (npromises example_channel + 3)
          (Then (Some (IssueMessage ''echo'' (JNum 1) 3000)) None 3))
   \<and> (\<exists>s1. sendMessage ''echo'' (JNum 1) None example_channel = Inr (3, s1)
        \<and> sent s1 = [request_payload ''wkPostMessengerCallback'' ''01000'' HANDSHAKE_ACTION
                       (JStr ''wkPostMessengerHandleMessage'')]
        \<and> whenReady s1 = Some 2 \<and> gated s1 2 3)
   \<and> promises (run [InvokeCallback ''01000'' JNull, Microtask, Microtask]
          (step (CallSendMessage ''echo'' (JNum 1) None) example_channel)) 2
        = Fulfilled JUndefined
   \<and> sent (run [CallSendMessage ''echo'' (JNum 1) None, InvokeCallback ''01000'' JNull,
                Microtask, Microtask, Microtask] example_channel)
        = [request_payload ''wkPostMessengerCallback'' ''01000'' HANDSHAKE_ACTION
             (JStr ''wkPostMessengerHandleMessage''),
           request_payload ''wkPostMessengerCallback'' ''11000'' ''echo'' (JNum 1)]
   \<and> promises (run [CallSendMessage ''echo'' (JNum 1) None, Tick 3000, TimerFires 0,
                Microtask, Microtask, Microtask, Microtask, Microtask] example_channel) 3
        = Rejected HANDSHAKE_TIMEOUT_REASON
   \<and> sent (run [CallSendMessage ''echo'' (JNum 1) None, Tick 3000, TimerFires 0,
                Microtask, Microtask, Microtask, Microtask, Microtask] example_channel)
        = [request_payload ''wkPostMessengerCallback'' ''01000'' HANDSHAKE_ACTION
             (JStr ''wkPostMessengerHandleMessage'')]"
proof -
  have h0: "consistent example_channel \<and> whenReady example_channel = None
      \<and> \<not> connected example_channel \<and> \<not> connecting example_channel"
    using consistent_example_channel by simp
  have h1: "microtasks example_channel = []
      \<and> emitter example_channel (next_id example_channel) = []"
    by simp
  have h2: "microtasks example_channel = [] \<and> 0 < handshakeTimeout example_channel
        \<and> handshakeTimeout example_channel \<le> int 3000"
    by simp
  have h3: "microtasks (run [InvokeCallback ''01000'' JNull, Microtask, Microtask]
          (step (CallSendMessage ''echo'' (JNum 1) None) example_channel))
        = ReactionJob (Then (Some (IssueMessage ''echo'' (JNum 1) 3000)) None 3)
            (Fulfilled JUndefined) # []
      \<and> is_issue (npromises example_channel + 3)
          (Then (Some (IssueMessage ''echo'' (JNum 1) 3000)) None 3)"
    using example_issue_job by simp
  note t = sendMessage_before_handshake [where s = example_channel and action = "''echo''"
      and data = "JNum 1" and timeoutArg = None
      and evs = "[InvokeCallback ''01000'' JNull, Microtask, Microtask]"
      and rc = "Then (Some (IssueMessage ''echo'' (JNum 1) 3000)) None 3"
      and v = JUndefined and js = "[]" and result = JNull and dt = 3000, THEN mp, OF h0]
  note t1 = t [THEN conjunct1]
  note t4 = t [THEN conjunct2, THEN conjunct2, THEN conjunct2, THEN conjunct1, THEN mp, OF h3]
  note t5 = t [THEN conjunct2, THEN conjunct2, THEN conjunct2, THEN conjunct2, THEN conjunct1,
      THEN mp, OF h1]
  note t6 = t [THEN conjunct2, THEN conjunct2, THEN conjunct2, THEN conjunct2, THEN conjunct2,
      THEN mp, OF h2]
  have c1: "\<exists>s1. sendMessage ''echo'' (JNum 1) None example_channel = Inr (3, s1)
        \<and> sent s1 = [request_payload ''wkPostMessengerCallback'' ''01000'' HANDSHAKE_ACTION
                       (JStr ''wkPostMessengerHandleMessage'')]
        \<and> whenReady s1 = Some 2 \<and> gated s1 2 3"
    using t1 by (simp add: numeral_2_eq_2)
  have c4: "promises (run [InvokeCallback ''01000'' JNull, Microtask, Microtask]
          (step (CallSendMessage ''echo'' (JNum 1) None) example_channel)) 2
        = Fulfilled JUndefined"
    using t4 by (simp add: numeral_2_eq_2)
  have c5: "sent (run [CallSendMessage ''echo'' (JNum 1) None, InvokeCallback ''01000'' JNull,
                Microtask, Microtask, Microtask] example_channel)
        = [request_payload ''wkPostMessengerCallback'' ''01000'' HANDSHAKE_ACTION
             (JStr ''wkPostMessengerHandleMessage''),
           request_payload ''wkPostMessengerCallback'' ''11000'' ''echo'' (JNum 1)]"
    using t5 [THEN conjunct2, THEN conjunct2] by (simp add: second_id_example)
  have c6: "promises (run [CallSendMessage ''echo'' (JNum 1) None, Tick 3000, TimerFires 0,
                Microtask, Microtask, Microtask, Microtask, Microtask] example_channel) 3
        = Rejected HANDSHAKE_TIMEOUT_REASON"
    using t6 [THEN conjunct2, THEN conjunct1] by simp
  have c7: "sent (run [CallSendMessage ''echo'' (JNum 1) None, Tick 3000, TimerFires 0,
                Microtask, Microtask, Microtask, Microtask, Microtask] example_channel)
        = [request_payload ''wkPostMessengerCallback'' ''01000'' HANDSHAKE_ACTION
             (JStr ''wkPostMessengerHandleMessage'')]"
    using t6 [THEN conjunct2, THEN conjunct2, THEN conjunct1] by simp
  from h0 h1 h2 h3 c1 c4 c5 c6 c7 show ?thesis by blast
qed

text \<open>
  Claim C2: a \<open>sendMessage(action, data)\<close> call made before any handshake sends exactly one
  handshake envelope, and the message envelope after it. On the channel the constructor
  returns when \<open>messageHandlers\<close> has no handler of the name, the call returns a deferred
  and \<open>postMessage\<close> throws inside the executor of the handshake call: no handshake
  envelope is sent, by the call or by the five microtasks after it, which reject the
  deferred of the call with the handshake-timeout reason and leave the queue empty.
\<close>

theorem sendMessage_unlocated_sends_no_handshake:
  "isl (constructor (default_options\<lparr>autoHandshake := False\<rparr>) unlocated_window 1000) = False
   \<and> parent unlocated_channel = None \<and> whenReady unlocated_channel = None
   \<and> sendMessage ''echo'' (JNum 1) None unlocated_channel
        = Inr (3, run [CallSendMessage ''echo'' (JNum 1) None] unlocated_channel)
   \<and> sent (run [CallSendMessage ''echo'' (JNum 1) None] unlocated_channel) = []
   \<and> sent (run [CallSendMessage ''echo'' (JNum 1) None,
                 Microtask, Microtask, Microtask, Microtask, Microtask] unlocated_channel) = []
   \<and> promises (run [CallSendMessage ''echo'' (JNum 1) None,
                     Microtask, Microtask, Microtask, Microtask, Microtask] unlocated_channel) 3
        = Rejected HANDSHAKE_TIMEOUT_REASON
   \<and> microtasks (run [CallSendMessage ''echo'' (JNum 1) None,
                       Microtask, Microtask, Microtask, Microtask, Microtask] unlocated_channel)
        = []"
proof -
  define s1 where "s1 = run [CallSendHandshake] unlocated_channel"
  define s2 where "s2 = snd (promise_then 2 (Some (IssueMessage ''echo'' (JNum 1) 3000)) None s1)"
  define s6 where "s6 = run [Microtask, Microtask, Microtask, Microtask] s2"
  note f = unlocated_handshake_called [folded s1_def]
  from sendMessage_first [of unlocated_channel "''echo''" "JNum 1" None] f(1)
  have call: "sendMessage ''echo'' (JNum 1) None unlocated_channel = Inr (3, s2)"
    by (simp add: s2_def numeral_2_eq_2 numeral_3_eq_3)
  have one: "run [CallSendMessage ''echo'' (JNum 1) None] unlocated_channel = s2"
    by (simp add: run_def call)
  have all: "run [CallSendMessage ''echo'' (JNum 1) None,
                  Microtask, Microtask, Microtask, Microtask, Microtask] unlocated_channel
      = microtask s6"
    by (simp add: run_def call s6_def)
  have f2: "promises s2 = (\<lambda>p. Pending)(0 := Rejected (JError ''TypeError''))"
    "npromises s2 = 4" "sent s2 = []" "parent s2 = None"
    "reactions s2 = (\<lambda>p. [])(1 := [Then None (Some HandshakeFailed) 2],
        2 := [Then (Some (IssueMessage ''echo'' (JNum 1) 3000)) None 3])"
    "microtasks s2 = [ReactionJob (Then (Some SetConnected) None 1)
                        (Rejected (JError ''TypeError''))]"
    by (auto simp: s2_def f promise_then_queue)
  have pre: "promises s2 1 = Pending" "promises s2 2 = Pending"
    "(1::nat) < npromises s2" "2 < npromises s2"
    "reactions s2 1 = [Then None (Some HandshakeFailed) 2]"
    by (simp_all add: f2)
  note r = attempt_throws [where s = s2 and q = 1 and r = 2, OF pre(1,2) _ pre(3-5) f2(6) s6_def]
  have f6: "sent s6 = sent s2" "parent s6 = parent s2"
    "promises s6 = (promises s2)(1 := Rejected (JError ''TypeError''),
        2 := Rejected HANDSHAKE_TIMEOUT_REASON, npromises s2 := Rejected HANDSHAKE_TIMEOUT_REASON)"
    "microtasks s6 = map (\<lambda>x. ReactionJob x (Rejected HANDSHAKE_TIMEOUT_REASON))
                       (reactions s2 2)"
    "reactions s6 = (reactions s2)(1 := [], 2 := [], npromises s2 := [])"
    by (rule r; simp)+
  have m6: "microtasks s6 = [ReactionJob (Then (Some (IssueMessage ''echo'' (JNum 1) 3000)) None 3)
                               (Rejected HANDSHAKE_TIMEOUT_REASON)]"
    by (simp add: f6 f2)
  have p6: "promises s6 3 = Pending" "sent s6 = []" "reactions s6 3 = []"
    by (simp_all add: f6 f2)
  have last: "promises (microtask s6) 3 = Rejected HANDSHAKE_TIMEOUT_REASON"
    "microtasks (microtask s6) = []" "sent (microtask s6) = []"
    using p6 by (simp_all add: microtask_Cons [OF m6])
  show ?thesis
    unfolding all one using call f2(3) last unlocated_constructed by simp
qed

text \<open>The states of the example channel the statement above is evaluated at.\<close>

lemma example_timer_fired:
  assumes f: "in_flight (step (Tick 3000) (step CallSendHandshake example_channel))
                0 0 ''01000'' 4000"
  shows "emitter (step (TimerFires 0) (step (Tick 3000) (step CallSendHandshake example_channel)))
           ''01000'' = []"
proof -
  define B where "B = step CallSendHandshake example_channel"
  define C where "C = step (Tick 3000) B"
  have r: "run [CallSendHandshake] example_channel = B" by (simp add: run_def B_def)
  note e = example_handshake_sent [unfolded r]
  have f': "in_flight C 0 0 ''01000'' 4000" using f by (simp only: C_def B_def)
  have c: "4000 \<le> clock C" by (simp add: C_def e)
  have "emitter (fire_timer 0 C) ''01000'' = []"
    by (simp add: in_flight_timeout(1) [OF f' c]) (simp add: C_def e)
  then have "emitter (step (TimerFires 0) C) ''01000'' = []" by simp
  then show ?thesis by (simp only: C_def B_def)
qed

theorem outbound_call_settles_once_witness:
  "(consistent example_channel \<and> (0::int) < 3000)
   \<and> (consistent example_channel \<and> \<not> connected example_channel \<and> \<not> connecting example_channel
        \<and> 0 < handshakeTimeout example_channel)
   \<and> in_flight (snd (priv_sendMessage ''echo'' (JNum 1) 3000 example_channel)) 0 0 ''01000'' 4000
   \<and> in_flight (step CallSendHandshake example_channel) 0 0 ''01000'' 4000
   \<and> (quiet ''01000'' 0 (Tick 3000) \<and> quiet ''01000'' 0 (InvokeCallback ''other'' JNull)
        \<and> quiet ''01000'' 0 Microtask)
   \<and> promises (run [Tick 3000, InvokeCallback ''other'' JNull, Microtask]
                 (step CallSendHandshake example_channel)) 0 = Pending
   \<and> in_flight (step (Tick 3000) (step CallSendHandshake example_channel)) 0 0 ''01000'' 4000
   \<and> 4000 \<le> clock (step (Tick 3000) (step CallSendHandshake example_channel))
   \<and> promises (step (TimerFires 0) (step (Tick 3000) (step CallSendHandshake example_channel))) 0
       = Rejected MESSAGE_TIMEOUT_REASON
   \<and> promises (run [InvokeCallback ''01000'' JNull, Microtask, TimerFires 0]
        (step (TimerFires 0) (step (Tick 3000) (step CallSendHandshake example_channel)))) 0
       = Rejected MESSAGE_TIMEOUT_REASON
   \<and> emitter (step (TimerFires 0) (step (Tick 3000) (step CallSendHandshake example_channel)))
        ''01000'' = []
   \<and> step (InvokeCallback ''01000'' JNull)
        (step (TimerFires 0) (step (Tick 3000) (step CallSendHandshake example_channel)))
       = step (TimerFires 0) (step (Tick 3000) (step CallSendHandshake example_channel))
   \<and> promises (step (InvokeCallback ''01000'' (JStr ''ok'')) (step CallSendHandshake example_channel)) 0
       = Fulfilled (JStr ''ok'')
   \<and> promises (run [Tick 3000, TimerFires 0, InvokeCallback ''01000'' JNull, Microtask]
        (step (InvokeCallback ''01000'' (JStr ''ok'')) (step CallSendHandshake example_channel))) 0
       = Fulfilled (JStr ''ok'')
   \<and> (consistent (run [InvokeCallback ''01000'' JNull, Microtask, Microtask]
          (step (CallSendMessage ''echo'' (JNum 1) None) example_channel))
        \<and> (0::int) < 3000
        \<and> microtasks (run [InvokeCallback ''01000'' JNull, Microtask, Microtask]
            (step (CallSendMessage ''echo'' (JNum 1) None) example_channel))
          = ReactionJob (Then (Some (IssueMessage ''echo'' (JNum 1) 3000)) None 3)
              (Fulfilled JUndefined) # [])
   \<and> in_flight (step Microtask (run [InvokeCallback ''01000'' JNull, Microtask, Microtask]
          (step (CallSendMessage ''echo'' (JNum 1) None) example_channel)))
        (npromises (run [InvokeCallback ''01000'' JNull, Microtask, Microtask]
          (step (CallSendMessage ''echo'' (JNum 1) None) example_channel)))
        (ntimers (run [InvokeCallback ''01000'' JNull, Microtask, Microtask]
          (step (CallSendMessage ''echo'' (JNum 1) None) example_channel)))
        (next_id (run [InvokeCallback ''01000'' JNull, Microtask, Microtask]
          (step (CallSendMessage ''echo'' (JNum 1) None) example_channel)))
        (clock (run [InvokeCallback ''01000'' JNull, Microtask, Microtask]
          (step (CallSendMessage ''echo'' (JNum 1) None) example_channel)) + 3000)
   \<and> consistent (run [CallSendHandshake] example_channel)
   \<and> (0, 4000, RejectTimeout ''01000'' 0 0) \<in> set (timers (run [CallSendHandshake] example_channel))
   \<and> promises (run [CallSendHandshake] example_channel) 0 = Pending"
proof -
  define B where "B = step CallSendHandshake example_channel"
  define C where "C = step (Tick 3000) B"
  define D where "D = run [InvokeCallback ''01000'' JNull, Microtask, Microtask]
          (step (CallSendMessage ''echo'' (JNum 1) None) example_channel)"
  let ?job = "ReactionJob (Then (Some (IssueMessage ''echo'' (JNum 1) 3000)) None 3)
              (Fulfilled JUndefined)"
  have rB: "run [CallSendHandshake] example_channel = B" by (simp add: run_def B_def)
  note e = example_handshake_sent [unfolded rB]
  have h1: "consistent example_channel \<and> (0::int) < 3000"
    using consistent_example_channel by simp
  have h2: "consistent example_channel \<and> \<not> connected example_channel
      \<and> \<not> connecting example_channel \<and> 0 < handshakeTimeout example_channel"
    using consistent_example_channel by simp
  note A = outbound_call_settles_once [where s = example_channel and timeout = 3000
      and action = "''echo''" and data = "JNum 1" and evs = "[CallSendHandshake]"]
  have c1: "in_flight (snd (priv_sendMessage ''echo'' (JNum 1) 3000 example_channel))
      0 0 ''01000'' 4000"
    using A [THEN conjunct1, THEN mp, OF h1] by simp
  have c2: "in_flight B 0 0 ''01000'' 4000"
    using A [THEN conjunct2, THEN conjunct1, THEN mp, OF h2, folded B_def] by simp
  note A7 = A [THEN conjunct2, THEN conjunct2, THEN conjunct2, THEN conjunct2, THEN conjunct2,
      THEN conjunct2, THEN mp, OF consistent_example_channel, unfolded rB]
  have c7a: "consistent B"
    using A7 by blast
  have c7m: "(0, 4000, RejectTimeout ''01000'' 0 0) \<in> set (timers B)"
    by (simp add: e)
  have c7b: "promises B 0 = Pending"
    using A7 [THEN conjunct2, THEN conjunct1, THEN bspec, OF c7m] by simp
  have q: "\<forall>ev \<in> set [Tick 3000, InvokeCallback ''other'' JNull, Microtask]. quiet ''01000'' 0 ev"
    by simp
  have q': "quiet ''01000'' 0 (Tick 3000) \<and> quiet ''01000'' 0 (InvokeCallback ''other'' JNull)
      \<and> quiet ''01000'' 0 Microtask"
    by simp
  have q1: "\<forall>ev \<in> set [Tick 3000]. quiet ''01000'' 0 ev"
    by simp
  have c4: "promises (run [Tick 3000, InvokeCallback ''other'' JNull, Microtask] B) 0 = Pending"
    using outbound_call_settles_once [where s = B and p = 0 and h = 0 and ident = "''01000''"
      and due = 4000 and evs = "[Tick 3000, InvokeCallback ''other'' JNull, Microtask]",
      THEN conjunct2, THEN conjunct2, THEN conjunct2, THEN conjunct1, THEN mp, OF conjI, OF c2 q]
    by blast
  have rC: "run [Tick 3000] B = C" by (simp add: run_def C_def)
  have c4b: "in_flight C 0 0 ''01000'' 4000"
    using outbound_call_settles_once [where s = B and p = 0 and h = 0 and ident = "''01000''"
      and due = 4000 and evs = "[Tick 3000]",
      THEN conjunct2, THEN conjunct2, THEN conjunct2, THEN conjunct1, THEN mp, OF conjI, OF c2 q1]
    unfolding rC by blast
  note B6 = outbound_call_settles_once [where s = B and p = 0 and h = 0 and ident = "''01000''"
      and due = 4000 and result = "JStr ''ok''"
      and evs' = "[Tick 3000, TimerFires 0, InvokeCallback ''01000'' JNull, Microtask]",
      THEN conjunct2, THEN conjunct2, THEN conjunct2, THEN conjunct2, THEN conjunct2,
      THEN conjunct1, THEN mp, OF c2]
  have c6a: "promises (step (InvokeCallback ''01000'' (JStr ''ok'')) B) 0 = Fulfilled (JStr ''ok'')"
    using B6 by blast
  have c6b: "promises (run [Tick 3000, TimerFires 0, InvokeCallback ''01000'' JNull, Microtask]
        (step (InvokeCallback ''01000'' (JStr ''ok'')) B)) 0 = Fulfilled (JStr ''ok'')"
    using B6 by blast
  have d: "4000 \<le> clock C"
    by (simp add: C_def e)
  have em: "emitter (step (TimerFires 0) C) ''01000'' = []"
    using example_timer_fired [OF c4b [unfolded C_def B_def]] by (simp only: C_def B_def)
  note C5 = outbound_call_settles_once [where s = C and p = 0 and h = 0 and ident = "''01000''"
      and due = 4000 and result = JNull
      and evs' = "[InvokeCallback ''01000'' JNull, Microtask, TimerFires 0]",
      THEN conjunct2, THEN conjunct2, THEN conjunct2, THEN conjunct2, THEN conjunct1, THEN mp,
      OF conjI, OF c4b d]
  have c5a: "promises (step (TimerFires 0) C) 0 = Rejected MESSAGE_TIMEOUT_REASON"
    using C5 by blast
  have c5b: "promises (run [InvokeCallback ''01000'' JNull, Microtask, TimerFires 0]
        (step (TimerFires 0) C)) 0 = Rejected MESSAGE_TIMEOUT_REASON"
    using C5 by blast
  have c5c: "step (InvokeCallback ''01000'' JNull) (step (TimerFires 0) C)
      = step (TimerFires 0) C"
    using C5 [THEN conjunct2, THEN conjunct2, THEN conjunct2, THEN mp, OF em] .
  have cD: "consistent D"
    unfolding D_def by (intro consistent_run consistent_step consistent_example_channel)
  have h3: "consistent D \<and> (0::int) < 3000 \<and> microtasks D = ?job # []"
    using cD example_issue_job by (simp add: D_def)
  have c3: "in_flight (step Microtask D) (npromises D) (ntimers D) (next_id D) (clock D + 3000)"
    using outbound_call_settles_once [where s = D and timeout = 3000 and action = "''echo''"
      and data = "JNum 1" and onRejected = None and q = 3 and v = JUndefined and js = "[]",
      THEN conjunct2, THEN conjunct2, THEN conjunct1, THEN mp, OF h3] .
  from h1 h2 c1 c2 q' c4 c4b d c5a c5b em c5c c6a c6b h3 c3 c7a c7m c7b
  show ?thesis unfolding rB D_def [symmetric] C_def [symmetric] B_def [symmetric]
    by blast
qed
end
